theory Spec2Isabelle
  imports Complex_Main "HOL-Library.Log_Nat" "HOL-Library.Multiset"
begin

section \<open>Documentation coverage of Swift sources: \<^verbatim>\<open>analyze_docs.py\<close>\<close>

text \<open>
  The script reads every \<^verbatim>\<open>.swift\<close> file below a fixed directory, counts the lines that
  look like a function or initializer declaration, counts how many of them have a
  \<^verbatim>\<open>///\<close> marker in the ten lines before them, and prints the ratios.

  Text is a \<^typ>\<open>string\<close>: a list of characters, each standing for the Unicode code point
  of the same number (code points below 256). A file's text is what Python's decoder
  returns, before newline translation.
\<close>

subsection \<open>Character classes of Python's \<^verbatim>\<open>re\<close> on \<^verbatim>\<open>str\<close> patterns\<close>

text \<open>
  \<^verbatim>\<open>\s\<close> is \<^verbatim>\<open>str.isspace\<close>: below 256 these are TAB, LF, VT, FF, CR, the four
  separators FS, GS, RS, US, the space, NEL (0x85) and the no-break space (0xA0).
\<close>

definition is_space :: "char \<Rightarrow> bool" where
  "is_space c =
     (let n = of_char c :: nat
      in (9 \<le> n \<and> n \<le> 13) \<or> (28 \<le> n \<and> n \<le> 32) \<or> n = 133 \<or> n = 160)"

text \<open>
  \<^verbatim>\<open>\w\<close> is \<^verbatim>\<open>str.isalnum\<close> or the underscore: the ASCII digits and letters, and
  below 256 also the Latin-1 letters (0xAA, 0xB5, 0xBA, 0xC0 to 0xFF without the
  multiplication and division signs 0xD7 and 0xF7), the superscript digits (0xB2, 0xB3,
  0xB9) and the vulgar fractions (0xBC to 0xBE).
\<close>

definition is_word :: "char \<Rightarrow> bool" where
  "is_word c =
     (let n = of_char c :: nat
      in (48 \<le> n \<and> n \<le> 57) \<or> (65 \<le> n \<and> n \<le> 90) \<or> n = 95 \<or> (97 \<le> n \<and> n \<le> 122)
         \<or> n = 170 \<or> n = 178 \<or> n = 179 \<or> n = 181 \<or> n = 185 \<or> n = 186
         \<or> (188 \<le> n \<and> n \<le> 190) \<or> (192 \<le> n \<and> n \<le> 214) \<or> (216 \<le> n \<and> n \<le> 246)
         \<or> (248 \<le> n \<and> n \<le> 255))"

subsection \<open>The fragment of regular expressions the script uses\<close>

datatype cls = Space | Word

fun in_cls :: "cls \<Rightarrow> char \<Rightarrow> bool" where
  "in_cls Space c = is_space c"
| "in_cls Word c = is_word c"

datatype regex =
    Lit string          \<comment> \<open>literal characters\<close>
  | Star cls            \<comment> \<open>\<^verbatim>\<open>\s*\<close>\<close>
  | Plus cls            \<comment> \<open>\<^verbatim>\<open>\s+\<close>, \<^verbatim>\<open>\w+\<close>\<close>
  | Seq regex regex     \<comment> \<open>concatenation\<close>
  | Alt regex regex     \<comment> \<open>\<^verbatim>\<open>a|b\<close>\<close>
  | Opt regex           \<comment> \<open>\<^verbatim>\<open>(a)?\<close>\<close>

text \<open>
  A backtracking matcher: \<open>rests r s\<close> lists what can remain of \<open>s\<close> after \<open>r\<close> has
  matched a prefix of it, in the order in which Python's engine tries the alternatives
  (greedy repetition: the longest run first; the left branch of \<^verbatim>\<open>|\<close> first; an optional
  group present first).
\<close>

fun many :: "(char \<Rightarrow> bool) \<Rightarrow> string \<Rightarrow> string list" where
  "many P [] = [[]]"
| "many P (c # s) = (if P c then many P s @ [c # s] else [c # s])"

fun many1 :: "(char \<Rightarrow> bool) \<Rightarrow> string \<Rightarrow> string list" where
  "many1 P [] = []"
| "many1 P (c # s) = (if P c then many P s else [])"

fun strip_lit :: "string \<Rightarrow> string \<Rightarrow> string option" where
  "strip_lit [] s = Some s"
| "strip_lit (a # w) [] = None"
| "strip_lit (a # w) (c # s) = (if a = c then strip_lit w s else None)"

fun rests :: "regex \<Rightarrow> string \<Rightarrow> string list" where
  "rests (Lit w) s = (case strip_lit w s of None \<Rightarrow> [] | Some t \<Rightarrow> [t])"
| "rests (Star k) s = many (in_cls k) s"
| "rests (Plus k) s = many1 (in_cls k) s"
| "rests (Seq a b) s = concat (map (rests b) (rests a s))"
| "rests (Alt a b) s = rests a s @ rests b s"
| "rests (Opt a) s = rests a s @ [s]"

text \<open>
  \<^verbatim>\<open>re.match(p, s)\<close> looks for a match that starts at position 0 of \<open>s\<close> and may end
  anywhere; the script only tests whether there is one.
\<close>

definition re_match :: "regex \<Rightarrow> string \<Rightarrow> bool" where
  "re_match r s = (rests r s \<noteq> [])"

text \<open>
  The pattern of line 10:
  \<^verbatim>\<open>^\s*(public\s+|private\s+|internal\s+|fileprivate\s+)?(static\s+)?(func\s+\w+|init\s*\()\<close>.
  The leading \<^verbatim>\<open>^\<close> holds at position 0, where \<^verbatim>\<open>re.match\<close> starts (no MULTILINE flag).
\<close>

definition visibility :: regex where
  "visibility =
     Alt (Seq (Lit ''public'') (Plus Space))
    (Alt (Seq (Lit ''private'') (Plus Space))
    (Alt (Seq (Lit ''internal'') (Plus Space))
         (Seq (Lit ''fileprivate'') (Plus Space))))"

definition decl_pattern :: regex where
  "decl_pattern =
     Seq (Star Space)
    (Seq (Opt visibility)
    (Seq (Opt (Seq (Lit ''static'') (Plus Space)))
         (Alt (Seq (Lit ''func'') (Seq (Plus Space) (Plus Word)))
              (Seq (Lit ''init'') (Seq (Star Space) (Lit ''(''))))))"

definition is_declaration :: "string \<Rightarrow> bool" where
  "is_declaration line = re_match decl_pattern line"

subsection \<open>Reading a file: \<^verbatim>\<open>open(filepath, 'r')\<close> and \<^verbatim>\<open>readlines\<close>\<close>

text \<open>
  A file opened in text mode translates \<^verbatim>\<open>\r\n\<close> and a lone \<^verbatim>\<open>\r\<close> to \<^verbatim>\<open>\n\<close>
  (universal newlines); \<^verbatim>\<open>readlines\<close> then cuts the text after each \<^verbatim>\<open>\n\<close> and
  keeps the \<^verbatim>\<open>\n\<close> at the end of each line.
\<close>

fun universal_newlines :: "string \<Rightarrow> string" where
  "universal_newlines [] = []"
| "universal_newlines (c # s) =
     (if c = CHR 0x0D then
        (case s of
           [] \<Rightarrow> [CHR 0x0A]
         | d # t \<Rightarrow> if d = CHR 0x0A then CHR 0x0A # universal_newlines t
                    else CHR 0x0A # universal_newlines s)
      else c # universal_newlines s)"

fun split_lines :: "string \<Rightarrow> string \<Rightarrow> string list" where
  "split_lines cur [] = (if cur = [] then [] else [cur])"
| "split_lines cur (c # s) =
     (if c = CHR 0x0A then (cur @ [c]) # split_lines [] s else split_lines (cur @ [c]) s)"

definition readlines :: "string \<Rightarrow> string list" where
  "readlines text = split_lines [] (universal_newlines text)"

subsection \<open>The file analyzer: \<^verbatim>\<open>analyze_file\<close>\<close>

text \<open>\<^verbatim>\<open>sub in s\<close> on strings: \<open>sub\<close> occurs somewhere in \<open>s\<close>.\<close>

fun contains :: "string \<Rightarrow> string \<Rightarrow> bool" where
  "contains sub [] = (sub = [])"
| "contains sub (c # s) = (strip_lit sub (c # s) \<noteq> None \<or> contains sub s)"

text \<open>The slice \<^verbatim>\<open>xs[a:b]\<close> for indices that are not negative.\<close>

definition slice :: "'a list \<Rightarrow> nat \<Rightarrow> nat \<Rightarrow> 'a list" where
  "slice xs a b = take (b - a) (drop a xs)"

text \<open>
  Lines 8 to 11: the first loop walks \<^verbatim>\<open>enumerate(lines)\<close> and appends the index of
  every matching line to \<^verbatim>\<open>func_lines\<close>.
\<close>

fun find_func_lines :: "nat \<Rightarrow> string list \<Rightarrow> nat list \<Rightarrow> nat list" where
  "find_func_lines i [] func_lines = func_lines"
| "find_func_lines i (line # rest) func_lines =
     find_func_lines (i + 1) rest
       (if is_declaration line then func_lines @ [i] else func_lines)"

text \<open>
  Lines 17 to 19: the test made for one declaration. \<^verbatim>\<open>line_num - 10\<close> is a Python
  integer and may be negative; \<^verbatim>\<open>max\<close> clips it to 0.
\<close>

definition has_doc :: "string list \<Rightarrow> nat \<Rightarrow> bool" where
  "has_doc lines line_num =
     (let start = nat (max 0 (int line_num - 10));
          prev_lines = slice lines start line_num
      in list_ex (contains ''///'') prev_lines)"

text \<open>Lines 14 to 20: the second loop counts the declarations that pass the test.\<close>

fun count_documented :: "string list \<Rightarrow> nat list \<Rightarrow> int \<Rightarrow> int" where
  "count_documented lines [] documented = documented"
| "count_documented lines (line_num # rest) documented =
     count_documented lines rest
       (if has_doc lines line_num then documented + 1 else documented)"

definition analyze_lines :: "string list \<Rightarrow> int \<times> int" where
  "analyze_lines lines =
     (let func_lines = find_func_lines 0 lines [];
          total = int (length func_lines);
          documented = count_documented lines func_lines 0
      in (total, documented))"

text \<open>
  Opening or decoding a file may raise; the run then stops, since nothing catches the
  exception. A file's content is \<open>None\<close> when reading it raises.
\<close>

datatype error = FileReadError | ZeroDivisionError | OverflowError

definition analyze_file :: "string option \<Rightarrow> error + int \<times> int" where
  "analyze_file content =
     (case content of
        None \<Rightarrow> Inl FileReadError
      | Some text \<Rightarrow> Inr (analyze_lines (readlines text)))"

subsection \<open>Python numbers: integers, IEEE 754 doubles, and their formatting\<close>

text \<open>
  Counts are Python integers (\<^typ>\<open>int\<close>). A finite double is its sign and its exact
  magnitude, a rational number; the sign is kept apart because a double has a negative
  zero. \<open>round_double\<close> rounds a magnitude to the nearest double, ties to the even
  significand: 53 significant bits, the smallest exponent -1022 (below it the spacing
  stays \<open>2 ^ -1074\<close>), and no finite result from \<open>2 ^ 1024\<close> on.
\<close>

datatype float = Finite bool rat | Infinity bool | NaN

definition pow2 :: "int \<Rightarrow> rat" where
  "pow2 e = (if 0 \<le> e then of_int (2 ^ nat e) else 1 / of_int (2 ^ nat (- e)))"

definition binade :: "rat \<Rightarrow> int" where
  "binade x =
     (let (p, q) = quotient_of x; d = bitlen p - bitlen q
      in if pow2 d \<le> x then d else d - 1)"

definition round_half_even :: "rat \<Rightarrow> int" where
  "round_half_even x =
     (let n = \<lfloor>x\<rfloor>; r = x - of_int n
      in if r < 1 / 2 then n else if 1 / 2 < r then n + 1 else if even n then n else n + 1)"

definition round_double :: "rat \<Rightarrow> rat option" where
  "round_double x =
     (if x = 0 then Some 0
      else let e = max (binade x) (- 1022);
               ulp = pow2 (e - 52);
               y = of_int (round_half_even (x / ulp)) * ulp
           in if pow2 1024 \<le> y then None else Some y)"

text \<open>
  \<^verbatim>\<open>a / b\<close> on integers is true division: the correctly rounded quotient, with
  \<^verbatim>\<open>ZeroDivisionError\<close> for a zero divisor and \<^verbatim>\<open>OverflowError\<close> when the quotient is
  too large for a double.
\<close>

definition int_true_div :: "int \<Rightarrow> int \<Rightarrow> error + float" where
  "int_true_div a b =
     (if b = 0 then Inl ZeroDivisionError
      else case round_double (\<bar>of_int a\<bar> / \<bar>of_int b\<bar>) of
             None \<Rightarrow> Inl OverflowError
           | Some m \<Rightarrow> Inr (Finite ((a < 0) \<noteq> (b < 0)) m))"

definition float_of_int :: "int \<Rightarrow> error + float" where
  "float_of_int i =
     (case round_double \<bar>of_int i\<bar> of
        None \<Rightarrow> Inl OverflowError
      | Some m \<Rightarrow> Inr (Finite (i < 0) m))"

fun float_mul :: "float \<Rightarrow> float \<Rightarrow> float" where
  "float_mul (Finite s x) (Finite t y) =
     (case round_double (x * y) of
        None \<Rightarrow> Infinity (s \<noteq> t)
      | Some m \<Rightarrow> Finite (s \<noteq> t) m)"
| "float_mul (Finite s x) (Infinity t) = (if x = 0 then NaN else Infinity (s \<noteq> t))"
| "float_mul (Infinity s) (Finite t y) = (if y = 0 then NaN else Infinity (s \<noteq> t))"
| "float_mul (Infinity s) (Infinity t) = Infinity (s \<noteq> t)"
| "float_mul NaN y = NaN"
| "float_mul x NaN = NaN"

text \<open>\<^verbatim>\<open>str(i)\<close>, which is also what \<^verbatim>\<open>{docs}\<close> prints in an f-string.\<close>

definition digit_char :: "nat \<Rightarrow> char" where
  "digit_char d = char_of (48 + d)"

fun digits :: "nat \<Rightarrow> string" where
  "digits n = (if n < 10 then [digit_char n] else digits (n div 10) @ [digit_char (n mod 10)])"

declare digits.simps [simp del]

definition str_int :: "int \<Rightarrow> string" where
  "str_int i = (if i < 0 then CHR ''-'' # digits (nat (- i)) else digits (nat i))"

text \<open>
  The format \<^verbatim>\<open>.1f\<close>: the decimal with one digit after the point that is nearest to
  the exact value of the double, ties to the even digit. An integer is converted to a
  double first.
\<close>

datatype number = PyInt int | PyFloat float

fun format_float_1f :: "float \<Rightarrow> string" where
  "format_float_1f (Finite s x) =
     (let n = round_half_even (x * 10)
      in (if s then ''-'' else []) @ digits (nat (n div 10)) @ ''.'' @ digits (nat (n mod 10)))"
| "format_float_1f (Infinity s) = (if s then ''-inf'' else ''inf'')"
| "format_float_1f NaN = ''nan''"

fun format_1f :: "number \<Rightarrow> error + string" where
  "format_1f (PyFloat x) = Inr (format_float_1f x)"
| "format_1f (PyInt i) =
     (case float_of_int i of Inl e \<Rightarrow> Inl e | Inr x \<Rightarrow> Inr (format_float_1f x))"

text \<open>
  Lines 34 and 37, the same expression twice:
  \<^verbatim>\<open>(docs / funcs * 100) if funcs > 0 else 0\<close>. The factor 100 is converted to the
  double 100.0 before the multiplication.
\<close>

definition coverage :: "int \<Rightarrow> int \<Rightarrow> error + number" where
  "coverage docs funcs =
     (if funcs > 0 then
        (case int_true_div docs funcs of
           Inl e \<Rightarrow> Inl e
         | Inr q \<Rightarrow> Inr (PyFloat (float_mul q (Finite False 100))))
      else Inr (PyInt 0))"

text \<open>The text between the parentheses of a report line: \<^verbatim>\<open>{coverage:.1f}\<close>.\<close>

definition percentage :: "int \<Rightarrow> int \<Rightarrow> error + string" where
  "percentage docs funcs =
     (case coverage docs funcs of Inl e \<Rightarrow> Inl e | Inr c \<Rightarrow> format_1f c)"

subsection \<open>The directory tree and \<^verbatim>\<open>os.walk\<close>\<close>

text \<open>
  A directory is the list of its entries in the order in which the file system lists
  them. A file carries its name and its content (\<open>None\<close> when reading it raises). A
  directory that cannot be listed, or a link to a directory, is a \<open>Dir\<close> without
  entries: \<^verbatim>\<open>os.walk\<close> names it among \<^verbatim>\<open>dirs\<close> and yields nothing below it.
\<close>

datatype entry = File string "string option" | Dir string "entry list"

text \<open>\<^verbatim>\<open>os.path.join(a, b)\<close> and \<^verbatim>\<open>os.path.basename(p)\<close> of \<^verbatim>\<open>posixpath\<close>.\<close>

definition endswith :: "string \<Rightarrow> string \<Rightarrow> bool" where
  "endswith s suffix =
     (length suffix \<le> length s \<and> drop (length s - length suffix) s = suffix)"

definition startswith :: "string \<Rightarrow> string \<Rightarrow> bool" where
  "startswith s prefix = (take (length prefix) s = prefix)"

definition join :: "string \<Rightarrow> string \<Rightarrow> string" where
  "join a b =
     (if startswith b ''/'' then b
      else if a = [] \<or> endswith a ''/'' then a @ b
      else a @ ''/'' @ b)"

definition basename :: "string \<Rightarrow> string" where
  "basename p = rev (takeWhile (\<lambda>c. c \<noteq> CHR ''/'') (rev p))"

text \<open>
  \<^verbatim>\<open>os.walk(top)\<close>, top down: it yields \<^verbatim>\<open>(top, dirs, files)\<close> for the directory
  itself, then walks each subdirectory in the order of \<^verbatim>\<open>dirs\<close>. The files of a
  triple carry their contents, which stand for what \<^verbatim>\<open>open\<close> finds under that directory.
\<close>

fun dir_names :: "entry list \<Rightarrow> string list" where
  "dir_names [] = []"
| "dir_names (File name content # es) = dir_names es"
| "dir_names (Dir name sub # es) = name # dir_names es"

fun file_entries :: "entry list \<Rightarrow> (string \<times> string option) list" where
  "file_entries [] = []"
| "file_entries (File name content # es) = (name, content) # file_entries es"
| "file_entries (Dir name sub # es) = file_entries es"

type_synonym triple = "string \<times> string list \<times> (string \<times> string option) list"

fun walk :: "string \<Rightarrow> entry list \<Rightarrow> triple list"
  and walk_dirs :: "string \<Rightarrow> entry list \<Rightarrow> triple list" where
  "walk dirpath es = (dirpath, dir_names es, file_entries es) # walk_dirs dirpath es"
| "walk_dirs dirpath [] = []"
| "walk_dirs dirpath (File name content # es) = walk_dirs dirpath es"
| "walk_dirs dirpath (Dir name sub # es) = walk (join dirpath name) sub @ walk_dirs dirpath es"

subsection \<open>The aggregator: lines 24 to 38\<close>

text \<open>
  The state of the run: the two running totals and the text written to the standard
  output so far. \<^verbatim>\<open>print(s)\<close> writes \<open>s\<close> and a newline.
\<close>

record totals =
  total_funcs :: int
  total_documented :: int
  stdout :: string

definition print :: "string \<Rightarrow> totals \<Rightarrow> totals" where
  "print s st = st\<lparr>stdout := stdout st @ s @ [CHR 0x0A]\<rparr>"

text \<open>
  An exception ends the run; the error value keeps the state reached, with the text
  already written.
\<close>

type_synonym outcome = "error \<times> totals + totals"

text \<open>Lines 29 to 35: the body of the inner loop, for one file of a directory.\<close>

definition report_line :: "string \<Rightarrow> int \<Rightarrow> int \<Rightarrow> string \<Rightarrow> string" where
  "report_line label docs funcs pct =
     label @ '': '' @ str_int docs @ ''/'' @ str_int funcs @ '' ('' @ pct @ ''%)''"

definition process_file :: "string \<Rightarrow> string \<times> string option \<Rightarrow> totals \<Rightarrow> outcome" where
  "process_file rootdir f st =
     (case f of (file, content) \<Rightarrow>
        if endswith file ''.swift'' then
          (let filepath = join rootdir file
           in case analyze_file content of
                Inl e \<Rightarrow> Inl (e, st)
              | Inr (funcs, docs) \<Rightarrow>
                  (let st1 = st\<lparr>total_funcs := total_funcs st + funcs\<rparr>;
                       st2 = st1\<lparr>total_documented := total_documented st1 + docs\<rparr>
                   in case percentage docs funcs of
                        Inl e \<Rightarrow> Inl (e, st2)
                      | Inr pct \<Rightarrow> Inr (print (report_line (basename filepath) docs funcs pct) st2)))
        else Inr st)"

fun scan_files :: "string \<Rightarrow> (string \<times> string option) list \<Rightarrow> totals \<Rightarrow> outcome" where
  "scan_files rootdir [] st = Inr st"
| "scan_files rootdir (f # files) st =
     (case process_file rootdir f st of
        Inl e \<Rightarrow> Inl e
      | Inr st' \<Rightarrow> scan_files rootdir files st')"

fun scan_walk :: "triple list \<Rightarrow> totals \<Rightarrow> outcome" where
  "scan_walk [] st = Inr st"
| "scan_walk ((rootdir, dirs, files) # rest) st =
     (case scan_files rootdir files st of
        Inl e \<Rightarrow> Inl e
      | Inr st' \<Rightarrow> scan_walk rest st')"

definition top_dir :: string where
  "top_dir = ''/Users/cybou/Documents/SwiftS3/Sources/SwiftS3''"

definition initial :: totals where
  "initial = \<lparr>total_funcs = 0, total_documented = 0, stdout = []\<rparr>"

text \<open>Lines 37 and 38: the summary, a newline and then the line \<^verbatim>\<open>Overall: ...\<close>.\<close>

definition print_overall :: "totals \<Rightarrow> outcome" where
  "print_overall st =
     (case percentage (total_documented st) (total_funcs st) of
        Inl e \<Rightarrow> Inl (e, st)
      | Inr pct \<Rightarrow>
          Inr (print ([CHR 0x0A] @ report_line ''Overall'' (total_documented st) (total_funcs st) pct) st))"

text \<open>
  The whole script, run on the entries of the top directory (none when the directory
  does not exist: \<^verbatim>\<open>os.walk\<close> then yields nothing).
\<close>

definition main :: "entry list \<Rightarrow> outcome" where
  "main tree =
     (case scan_walk (walk top_dir tree) initial of
        Inl e \<Rightarrow> Inl e
      | Inr st \<Rightarrow> print_overall st)"

section \<open>Notions in which the properties are stated\<close>

subsection \<open>The words a regular expression matches\<close>

fun lang :: "regex \<Rightarrow> string set" where
  "lang (Lit w) = {w}"
| "lang (Star k) = {p. list_all (in_cls k) p}"
| "lang (Plus k) = {p. p \<noteq> [] \<and> list_all (in_cls k) p}"
| "lang (Seq a b) = {p @ q | p q. p \<in> lang a \<and> q \<in> lang b}"
| "lang (Alt a b) = lang a \<union> lang b"
| "lang (Opt a) = insert [] (lang a)"

subsection \<open>The shape of a declaration line, in words\<close>

definition spaces :: "string \<Rightarrow> bool" where
  "spaces w = list_all is_space w"

definition spaces1 :: "string \<Rightarrow> bool" where
  "spaces1 w = (w \<noteq> [] \<and> list_all is_space w)"

definition word_chars1 :: "string \<Rightarrow> bool" where
  "word_chars1 w = (w \<noteq> [] \<and> list_all is_word w)"

text \<open>A keyword followed by at least one whitespace character.\<close>

definition keyword_ws :: "string \<Rightarrow> string \<Rightarrow> bool" where
  "keyword_ws k v = (\<exists>sp. spaces1 sp \<and> v = k @ sp)"

definition visibility_form :: "string \<Rightarrow> bool" where
  "visibility_form v =
     (keyword_ws ''public'' v \<or> keyword_ws ''private'' v \<or> keyword_ws ''internal'' v
      \<or> keyword_ws ''fileprivate'' v)"

definition func_form :: "string \<Rightarrow> bool" where
  "func_form core = (\<exists>sp w. spaces1 sp \<and> word_chars1 w \<and> core = ''func'' @ sp @ w)"

text \<open>
  Two readings of the initializer: \<^verbatim>\<open>init\<close> with the parenthesis right behind it, and
  \<^verbatim>\<open>init\<close> with whitespace allowed before the parenthesis.
\<close>

definition init_immediate :: "string \<Rightarrow> bool" where
  "init_immediate core = (core = ''init('')"

definition init_spaced :: "string \<Rightarrow> bool" where
  "init_spaced core = (\<exists>sp. spaces sp \<and> core = ''init'' @ sp @ ''('')"

text \<open>
  A line has the shape of a declaration when it is: whitespace, an optional visibility
  keyword with its whitespace, an optional \<^verbatim>\<open>static\<close> with its whitespace, a \<^verbatim>\<open>func\<close> or
  \<^verbatim>\<open>init\<close> form, and anything after that.
\<close>

definition decl_shape :: "(string \<Rightarrow> bool) \<Rightarrow> string \<Rightarrow> bool" where
  "decl_shape init_form line =
     (\<exists>ws vis st core rest.
        line = ws @ vis @ st @ core @ rest \<and> spaces ws
        \<and> (vis = [] \<or> visibility_form vis)
        \<and> (st = [] \<or> keyword_ws ''static'' st)
        \<and> (func_form core \<or> init_form core))"

text \<open>
  The same pattern with the initializer branch left open, and the pattern that the
  reading \<open>init_immediate\<close> describes.
\<close>

definition pattern_with :: "regex \<Rightarrow> regex" where
  "pattern_with init_rx =
     Seq (Star Space)
    (Seq (Opt visibility)
    (Seq (Opt (Seq (Lit ''static'') (Plus Space)))
         (Alt (Seq (Lit ''func'') (Seq (Plus Space) (Plus Word))) init_rx)))"

definition immediate_pattern :: regex where
  "immediate_pattern = pattern_with (Lit ''init('')"

subsection \<open>Declarations of a file and their windows\<close>

definition decl_indices :: "string list \<Rightarrow> nat list" where
  "decl_indices lines = filter (\<lambda>i. is_declaration (lines ! i)) [0..<length lines]"

text \<open>Line \<open>j\<close> lies in the window \<open>[max(0, i - 10), i)\<close> and holds the marker.\<close>

definition marker_in_window :: "string list \<Rightarrow> nat \<Rightarrow> nat \<Rightarrow> bool" where
  "marker_in_window lines i j =
     (max 0 (int i - 10) \<le> int j \<and> j < i \<and> j < length lines
      \<and> (\<exists>a b. lines ! j = a @ ''///'' @ b))"

subsection \<open>The files a run reports, and what it prints for each\<close>

text \<open>The files whose names end in \<^verbatim>\<open>.swift\<close>, in the order in which the walk meets them.\<close>

definition is_swift :: "string \<times> string option \<Rightarrow> bool" where
  "is_swift f = endswith (fst f) ''.swift''"

definition swift_files :: "entry list \<Rightarrow> (string \<times> string option) list" where
  "swift_files tree =
     concat (map (\<lambda>(rootdir, dirs, files). filter is_swift files) (walk top_dir tree))"

text \<open>
  A file is readable when opening and decoding it does not raise; its name is plain when
  it holds no slash, as every name of a directory entry does.
\<close>

definition readable :: "string \<times> string option \<Rightarrow> bool" where
  "readable f = (snd f \<noteq> None)"

definition plain_name :: "string \<times> string option \<Rightarrow> bool" where
  "plain_name f = (CHR ''/'' \<notin> set (fst f))"

definition file_counts :: "string \<times> string option \<Rightarrow> int \<times> int" where
  "file_counts f = (case snd f of None \<Rightarrow> (0, 0) | Some text \<Rightarrow> analyze_lines (readlines text))"

text \<open>The decimal numeral of \<open>n / 10\<close> with one digit after the point, for \<open>n\<close> not negative.\<close>

definition one_decimal :: "int \<Rightarrow> string" where
  "one_decimal n = digits (nat (n div 10)) @ ''.'' @ digits (nat (n mod 10))"

definition percent_text :: "int \<Rightarrow> int \<Rightarrow> string" where
  "percent_text docs funcs = (case percentage docs funcs of Inl e \<Rightarrow> [] | Inr s \<Rightarrow> s)"

definition file_report :: "string \<times> string option \<Rightarrow> string" where
  "file_report f =
     (case file_counts f of (funcs, docs) \<Rightarrow>
        fst f @ '': '' @ str_int docs @ ''/'' @ str_int funcs
        @ '' ('' @ percent_text docs funcs @ ''%)'' @ [CHR 0x0A])"

definition overall_report :: "int \<Rightarrow> int \<Rightarrow> string" where
  "overall_report docs funcs =
     [CHR 0x0A] @ ''Overall: '' @ str_int docs @ ''/'' @ str_int funcs
     @ '' ('' @ percent_text docs funcs @ ''%)'' @ [CHR 0x0A]"

text \<open>The state after the reports of the files \<open>fs\<close> have been added to the state \<open>st\<close>.\<close>

definition after_files :: "(string \<times> string option) list \<Rightarrow> totals \<Rightarrow> totals" where
  "after_files fs st =
     st\<lparr>total_funcs := total_funcs st + sum_list (map (fst \<circ> file_counts) fs),
        total_documented := total_documented st + sum_list (map (snd \<circ> file_counts) fs),
        stdout := stdout st @ concat (map file_report fs)\<rparr>"

text \<open>The text a run has written, whether it ended normally or by an exception.\<close>

definition written :: "outcome \<Rightarrow> string" where
  "written r = (case r of Inl (e, st) \<Rightarrow> stdout st | Inr st \<Rightarrow> stdout st)"

subsection \<open>The states a run passes through\<close>

definition consistent :: "totals \<Rightarrow> bool" where
  "consistent st = (0 \<le> total_documented st \<and> total_documented st \<le> total_funcs st)"

text \<open>
  The states inside the body of the loop, for one file: after line 32 has added to
  \<^verbatim>\<open>total_funcs\<close>, and after line 33 has added to \<^verbatim>\<open>total_documented\<close>.
\<close>

definition file_states :: "string \<times> string option \<Rightarrow> totals \<Rightarrow> totals list" where
  "file_states f st =
     (case f of (file, content) \<Rightarrow>
        if endswith file ''.swift'' then
          (case analyze_file content of
             Inl e \<Rightarrow> []
           | Inr (funcs, docs) \<Rightarrow>
               [st\<lparr>total_funcs := total_funcs st + funcs\<rparr>,
                st\<lparr>total_funcs := total_funcs st + funcs,
                   total_documented := total_documented st + docs\<rparr>])
        else [])"

text \<open>
  The states of a directory, then of a walk, then of the whole run: the initial state,
  for every file the states inside the body and the state after it (at an exception,
  the state it left), and the state after the summary.
\<close>

fun states_files :: "string \<Rightarrow> (string \<times> string option) list \<Rightarrow> totals \<Rightarrow> totals list" where
  "states_files rootdir [] st = []"
| "states_files rootdir (f # files) st =
     file_states f st
     @ (case process_file rootdir f st of
          Inl (e, st') \<Rightarrow> [st']
        | Inr st' \<Rightarrow> st' # states_files rootdir files st')"

fun states_walk :: "triple list \<Rightarrow> totals \<Rightarrow> totals list" where
  "states_walk [] st = []"
| "states_walk ((rootdir, dirs, files) # rest) st =
     states_files rootdir files st
     @ (case scan_files rootdir files st of
          Inl e \<Rightarrow> []
        | Inr st' \<Rightarrow> states_walk rest st')"

definition run_states :: "entry list \<Rightarrow> totals list" where
  "run_states tree =
     initial # states_walk (walk top_dir tree) initial
     @ (case main tree of Inl (e, st) \<Rightarrow> [st] | Inr st \<Rightarrow> [st])"

section \<open>Properties\<close>

subsection \<open>The analyzer's loops as list operations\<close>

lemma strip_lit_iff: "strip_lit w s = Some t \<longleftrightarrow> s = w @ t"
  by (induction w s rule: strip_lit.induct) auto

lemma contains_iff: "contains sub s \<longleftrightarrow> (\<exists>a b. s = a @ sub @ b)"
proof (induction s)
  case Nil
  show ?case by auto
next
  case (Cons c s)
  have "(\<exists>a b. c # s = a @ sub @ b) \<longleftrightarrow> (\<exists>t. c # s = sub @ t) \<or> (\<exists>a b. s = a @ sub @ b)"
  proof
    assume "\<exists>a b. c # s = a @ sub @ b"
    then obtain a b where ab: "c # s = a @ sub @ b" by blast
    show "(\<exists>t. c # s = sub @ t) \<or> (\<exists>a b. s = a @ sub @ b)"
    proof (cases a)
      case Nil
      with ab show ?thesis by auto
    next
      case (Cons x a')
      with ab have "s = a' @ sub @ b" by simp
      then show ?thesis by blast
    qed
  next
    assume "(\<exists>t. c # s = sub @ t) \<or> (\<exists>a b. s = a @ sub @ b)"
    then show "\<exists>a b. c # s = a @ sub @ b"
    proof
      assume "\<exists>t. c # s = sub @ t"
      then obtain t where "c # s = [] @ sub @ t" by auto
      then show ?thesis by blast
    next
      assume "\<exists>a b. s = a @ sub @ b"
      then obtain a b where "c # s = (c # a) @ sub @ b" by auto
      then show ?thesis by blast
    qed
  qed
  with Cons show ?case by (simp add: strip_lit_iff)
qed

lemma decl_indices_Nil: "decl_indices [] = []"
  by (simp add: decl_indices_def)

lemma decl_indices_Cons:
  "decl_indices (l # ls) = (if is_declaration l then [0] else []) @ map Suc (decl_indices ls)"
proof -
  have "[0..<length (l # ls)] = 0 # map Suc [0..<length ls]"
    by (metis length_Cons map_Suc_upt upt_conv_Cons zero_less_Suc)
  then show ?thesis
    by (simp add: decl_indices_def filter_map comp_def)
qed

lemma find_func_lines_eq:
  "find_func_lines i ls acc = acc @ map (\<lambda>j. i + j) (decl_indices ls)"
proof (induction ls arbitrary: i acc)
  case Nil
  show ?case by (simp add: decl_indices_Nil)
next
  case (Cons l ls)
  show ?case by (simp add: Cons.IH decl_indices_Cons comp_def)
qed

lemma count_documented_eq:
  "count_documented ls idx d = d + int (length (filter (has_doc ls) idx))"
  by (induction idx arbitrary: d) auto

lemma analyze_lines_eq:
  "analyze_lines ls =
     (int (length (decl_indices ls)), int (length (filter (has_doc ls) (decl_indices ls))))"
  by (simp add: analyze_lines_def Let_def find_func_lines_eq count_documented_eq)

lemma has_doc_0: "\<not> has_doc ls 0"
  by (simp add: has_doc_def slice_def)

lemma set_slice: "set (slice xs a b) = {xs ! j | j. a \<le> j \<and> j < b \<and> j < length xs}"
proof -
  have "set (take (b - a) (drop a xs)) = {xs ! j | j. a \<le> j \<and> j < b \<and> j < length xs}"
  proof (intro set_eqI iffI)
    fix x assume "x \<in> set (take (b - a) (drop a xs))"
    then obtain k where k: "k < length (take (b - a) (drop a xs))" "take (b - a) (drop a xs) ! k = x"
      by (auto simp: in_set_conv_nth)
    then have "x = xs ! (a + k)" "a \<le> a + k" "a + k < b" "a + k < length xs"
      by auto
    then show "x \<in> {xs ! j | j. a \<le> j \<and> j < b \<and> j < length xs}" by blast
  next
    fix x assume "x \<in> {xs ! j | j. a \<le> j \<and> j < b \<and> j < length xs}"
    then obtain j where j: "x = xs ! j" "a \<le> j" "j < b" "j < length xs" by blast
    then have "j - a < length (take (b - a) (drop a xs))" by auto
    moreover have "take (b - a) (drop a xs) ! (j - a) = x" using j by auto
    ultimately show "x \<in> set (take (b - a) (drop a xs))"
      by (metis nth_mem)
  qed
  then show ?thesis by (simp add: slice_def)
qed

lemma has_doc_iff: "has_doc ls i \<longleftrightarrow> (\<exists>j. marker_in_window ls i j)"
proof -
  have start: "nat (max 0 (int i - 10)) \<le> j \<longleftrightarrow> max 0 (int i - 10) \<le> int j" for j
    by auto
  have "has_doc ls i \<longleftrightarrow> (\<exists>x \<in> set (slice ls (nat (max 0 (int i - 10))) i). contains ''///'' x)"
    by (simp add: has_doc_def Let_def list_ex_iff)
  also have "\<dots> \<longleftrightarrow> (\<exists>j. nat (max 0 (int i - 10)) \<le> j \<and> j < i \<and> j < length ls \<and> contains ''///'' (ls ! j))"
    unfolding set_slice by blast
  also have "\<dots> \<longleftrightarrow> (\<exists>j. marker_in_window ls i j)"
    unfolding marker_in_window_def contains_iff start by blast
  finally show ?thesis .
qed

lemma length_filter_drop:
  "x \<in> set xs \<Longrightarrow> \<not> P x \<Longrightarrow> length (filter P xs) < length xs"
  by (induction xs) (auto simp: less_Suc_eq_le)

lemma length_filter_upt: "length (filter P [0..<n]) = card {i. i < n \<and> P i}"
proof -
  have "length (filter P [0..<n]) = card {i. i < length [0..<n] \<and> P ([0..<n] ! i)}"
    by (rule length_filter_conv_card)
  also have "{i. i < length [0..<n] \<and> P ([0..<n] ! i)} = {i. i < n \<and> P i}"
    by auto
  finally show ?thesis .
qed

lemma analyze_lines_card:
  "analyze_lines lines =
     (int (card {i. i < length lines \<and> is_declaration (lines ! i)}),
      int (card {i. i < length lines \<and> is_declaration (lines ! i) \<and> has_doc lines i}))"
proof -
  have "filter (has_doc lines) (decl_indices lines)
      = filter (\<lambda>i. is_declaration (lines ! i) \<and> has_doc lines i) [0..<length lines]"
    by (simp add: decl_indices_def conj_commute)
  then show ?thesis
    by (simp add: analyze_lines_eq length_filter_upt) (simp add: decl_indices_def length_filter_upt)
qed

lemma slice_append: "b \<le> length xs \<Longrightarrow> slice (xs @ ys) a b = slice xs a b"
  by (simp add: slice_def)

lemma has_doc_append: "i \<le> length L \<Longrightarrow> has_doc (L @ S) i = has_doc L i"
  by (simp add: has_doc_def Let_def slice_append)

lemma decl_indices_append:
  "decl_indices (L @ S) = decl_indices L @ map (\<lambda>j. length L + j) (decl_indices S)"
proof (induction L)
  case Nil
  show ?case by (simp add: decl_indices_Nil)
next
  case (Cons l L)
  show ?case by (simp add: decl_indices_Cons Cons.IH comp_def)
qed

lemma decl_indices_less: "i \<in> set (decl_indices L) \<Longrightarrow> i < length L"
  by (simp add: decl_indices_def)

lemma documented_append:
  "filter (has_doc (L @ S)) (decl_indices L) = filter (has_doc L) (decl_indices L)"
  by (rule filter_cong) (auto dest: decl_indices_less simp: has_doc_append)

lemma marker_only_on_first_line:
  assumes "list_all (\<lambda>l. \<not> contains ''///'' l) (tl ls)" "j < length ls" "ls ! j = a @ ''///'' @ b"
  shows "j = 0"
proof (rule ccontr)
  assume "j \<noteq> 0"
  then obtain k where k: "j = Suc k" by (cases j) auto
  with assms(2) obtain l ls' where ls: "ls = l # ls'" by (cases ls) auto
  with k assms(2) have "ls' ! k \<in> set ls'" by simp
  with assms(1) ls have "\<not> contains ''///'' (ls' ! k)" by (simp add: list_all_iff)
  moreover from assms(3) k ls have "contains ''///'' (ls' ! k)"
    unfolding contains_iff by auto
  ultimately show False by contradiction
qed

lemma find_func_lines_start: "find_func_lines 0 ls [] = decl_indices ls"
proof -
  have "map (\<lambda>j. 0 + j) (decl_indices ls) = decl_indices ls" by (simp add: map_idI)
  then show ?thesis by (simp only: find_func_lines_eq append_Nil)
qed

lemma declaration_line_counted:
  assumes "is_declaration l"
  shows "length pre \<in> set (find_func_lines 0 (pre @ l # post) [])"
    and "fst (analyze_lines (pre @ l # post)) = fst (analyze_lines pre) + 1 + fst (analyze_lines post)"
proof -
  have d: "decl_indices (pre @ l # post)
      = decl_indices pre @ map (\<lambda>j. length pre + j) (0 # map Suc (decl_indices post))"
    using assms by (simp add: decl_indices_append decl_indices_Cons)
  then show "length pre \<in> set (find_func_lines 0 (pre @ l # post) [])"
    by (simp add: find_func_lines_start)
  from d show "fst (analyze_lines (pre @ l # post)) = fst (analyze_lines pre) + 1 + fst (analyze_lines post)"
    by (simp add: analyze_lines_eq)
qed

subsection \<open>The matcher finds exactly the words of the expression\<close>

lemma many_set: "set (many P s) = {t. \<exists>p. s = p @ t \<and> list_all P p}"
proof (induction s)
  case Nil
  show ?case by auto
next
  case (Cons c s)
  have "{t. \<exists>p. c # s = p @ t \<and> list_all P p}
        = (if P c then {t. \<exists>p. s = p @ t \<and> list_all P p} else {}) \<union> {c # s}"
  proof (intro set_eqI iffI)
    fix t assume "t \<in> {t. \<exists>p. c # s = p @ t \<and> list_all P p}"
    then obtain p where p: "c # s = p @ t" "list_all P p" by blast
    show "t \<in> (if P c then {t. \<exists>p. s = p @ t \<and> list_all P p} else {}) \<union> {c # s}"
    proof (cases p)
      case Nil
      with p show ?thesis by simp
    next
      case (Cons x p')
      with p have "P c" "s = p' @ t" "list_all P p'" by auto
      then show ?thesis by auto
    qed
  next
    fix t assume t: "t \<in> (if P c then {t. \<exists>p. s = p @ t \<and> list_all P p} else {}) \<union> {c # s}"
    show "t \<in> {t. \<exists>p. c # s = p @ t \<and> list_all P p}"
    proof (cases "t = c # s")
      case True
      then have "c # s = [] @ t \<and> list_all P []" by simp
      then show ?thesis by blast
    next
      case False
      with t obtain p where "P c" "s = p @ t" "list_all P p" by (auto split: if_splits)
      then have "c # s = (c # p) @ t \<and> list_all P (c # p)" by simp
      then show ?thesis by blast
    qed
  qed
  with Cons show ?case by auto
qed

lemma many1_set: "set (many1 P s) = {t. \<exists>p. p \<noteq> [] \<and> s = p @ t \<and> list_all P p}"
proof (cases s)
  case Nil
  then show ?thesis by auto
next
  case (Cons c s')
  have "{t. \<exists>p. p \<noteq> [] \<and> c # s' = p @ t \<and> list_all P p}
        = (if P c then {t. \<exists>p. s' = p @ t \<and> list_all P p} else {})"
  proof (intro set_eqI iffI)
    fix t assume "t \<in> {t. \<exists>p. p \<noteq> [] \<and> c # s' = p @ t \<and> list_all P p}"
    then obtain p where p: "p \<noteq> []" "c # s' = p @ t" "list_all P p" by blast
    then obtain x p' where "p = x # p'" by (cases p) auto
    with p have "P c" "s' = p' @ t" "list_all P p'" by auto
    then show "t \<in> (if P c then {t. \<exists>p. s' = p @ t \<and> list_all P p} else {})" by auto
  next
    fix t assume "t \<in> (if P c then {t. \<exists>p. s' = p @ t \<and> list_all P p} else {})"
    then obtain p where "P c" "s' = p @ t" "list_all P p" by (auto split: if_splits)
    then have "c # p \<noteq> [] \<and> c # s' = (c # p) @ t \<and> list_all P (c # p)" by simp
    then show "t \<in> {t. \<exists>p. p \<noteq> [] \<and> c # s' = p @ t \<and> list_all P p}" by blast
  qed
  with Cons show ?thesis by (simp add: many_set)
qed

lemma rests_set: "set (rests r s) = {t. \<exists>p \<in> lang r. s = p @ t}"
proof (induction r arbitrary: s)
  case (Lit w)
  have "strip_lit w (w @ t) = Some t" for t by (simp add: strip_lit_iff)
  moreover have "strip_lit w s = Some t \<Longrightarrow> s = w @ t" for t by (simp add: strip_lit_iff)
  ultimately show ?case by (cases "strip_lit w s") auto
next
  case (Star k)
  show ?case by (auto simp: many_set)
next
  case (Plus k)
  show ?case by (auto simp: many1_set)
next
  case (Seq a b)
  have "set (rests (Seq a b) s) = (\<Union>t \<in> set (rests a s). set (rests b t))" by simp
  also have "\<dots> = {u. \<exists>p \<in> lang a. \<exists>q \<in> lang b. s = p @ q @ u}"
    unfolding Seq.IH by blast
  also have "\<dots> = {u. \<exists>pq \<in> lang (Seq a b). s = pq @ u}"
  proof (intro set_eqI iffI)
    fix u assume "u \<in> {u. \<exists>p \<in> lang a. \<exists>q \<in> lang b. s = p @ q @ u}"
    then obtain p q where "p \<in> lang a" "q \<in> lang b" "s = (p @ q) @ u" by auto
    moreover from this have "p @ q \<in> lang (Seq a b)" by auto
    ultimately show "u \<in> {u. \<exists>pq \<in> lang (Seq a b). s = pq @ u}" by blast
  next
    fix u assume "u \<in> {u. \<exists>pq \<in> lang (Seq a b). s = pq @ u}"
    then obtain p q where "p \<in> lang a" "q \<in> lang b" "s = p @ q @ u" by auto
    then show "u \<in> {u. \<exists>p \<in> lang a. \<exists>q \<in> lang b. s = p @ q @ u}" by blast
  qed
  finally show ?case .
next
  case (Alt a b)
  then show ?case by auto
next
  case (Opt a)
  then show ?case by auto
qed

lemma re_match_iff: "re_match r s \<longleftrightarrow> (\<exists>p t. p \<in> lang r \<and> s = p @ t)"
proof -
  have "re_match r s \<longleftrightarrow> set (rests r s) \<noteq> {}" by (simp add: re_match_def)
  also have "\<dots> \<longleftrightarrow> (\<exists>p t. p \<in> lang r \<and> s = p @ t)" unfolding rests_set by blast
  finally show ?thesis .
qed

subsection \<open>The pattern of line 10, in words\<close>

lemma lang_spaces:
  "p \<in> lang (Star Space) \<longleftrightarrow> spaces p"
  "p \<in> lang (Plus Space) \<longleftrightarrow> spaces1 p"
  "p \<in> lang (Plus Word) \<longleftrightarrow> word_chars1 p"
proof -
  have "in_cls Space = is_space" "in_cls Word = is_word" by (auto simp: fun_eq_iff)
  then show "p \<in> lang (Star Space) \<longleftrightarrow> spaces p"
    "p \<in> lang (Plus Space) \<longleftrightarrow> spaces1 p"
    "p \<in> lang (Plus Word) \<longleftrightarrow> word_chars1 p"
    by (simp_all add: spaces_def spaces1_def word_chars1_def)
qed

lemma in_lang_Seq: "x \<in> lang (Seq a b) \<longleftrightarrow> (\<exists>u v. x = u @ v \<and> u \<in> lang a \<and> v \<in> lang b)"
  by auto

lemma in_lang_Lit: "x \<in> lang (Lit w) \<longleftrightarrow> x = w"
  by simp

lemma lang_keyword_ws: "p \<in> lang (Seq (Lit k) (Plus Space)) \<longleftrightarrow> keyword_ws k p"
  unfolding in_lang_Seq in_lang_Lit lang_spaces keyword_ws_def by blast

lemma lang_visibility: "p \<in> lang visibility \<longleftrightarrow> visibility_form p"
  unfolding visibility_def visibility_form_def lang.simps(5) Un_iff lang_keyword_ws by blast

lemma lang_func: "p \<in> lang (Seq (Lit ''func'') (Seq (Plus Space) (Plus Word))) \<longleftrightarrow> func_form p"
  unfolding in_lang_Seq in_lang_Lit lang_spaces func_form_def by blast

lemma lang_init_spaced:
  "p \<in> lang (Seq (Lit ''init'') (Seq (Star Space) (Lit ''(''))) \<longleftrightarrow> init_spaced p"
  unfolding in_lang_Seq in_lang_Lit lang_spaces init_spaced_def by blast

lemma lang_init_immediate: "p \<in> lang (Lit ''init('') \<longleftrightarrow> init_immediate p"
  by (auto simp: init_immediate_def)

lemma lang_pattern_with:
  assumes "\<And>core. core \<in> lang init_rx \<longleftrightarrow> init_form core"
  shows "p \<in> lang (pattern_with init_rx) \<longleftrightarrow>
    (\<exists>ws vis st core. p = ws @ vis @ st @ core \<and> spaces ws
       \<and> (vis = [] \<or> visibility_form vis)
       \<and> (st = [] \<or> keyword_ws ''static'' st)
       \<and> (func_form core \<or> init_form core))"
proof -
  have core: "c \<in> lang (Alt (Seq (Lit ''func'') (Seq (Plus Space) (Plus Word))) init_rx)
      \<longleftrightarrow> func_form c \<or> init_form c" for c
    unfolding lang.simps(5) Un_iff lang_func assms ..
  have st: "s \<in> lang (Opt (Seq (Lit ''static'') (Plus Space))) \<longleftrightarrow> s = [] \<or> keyword_ws ''static'' s" for s
    unfolding lang.simps(6) insert_iff lang_keyword_ws ..
  have vis: "v \<in> lang (Opt visibility) \<longleftrightarrow> v = [] \<or> visibility_form v" for v
    unfolding lang.simps(6) insert_iff lang_visibility ..
  show ?thesis
    unfolding pattern_with_def in_lang_Seq core st vis lang_spaces by blast
qed

lemma shape_iff_match:
  assumes "\<And>core. core \<in> lang init_rx \<longleftrightarrow> init_form core"
  shows "re_match (pattern_with init_rx) line \<longleftrightarrow> decl_shape init_form line"
proof
  assume "re_match (pattern_with init_rx) line"
  then obtain p t where p: "p \<in> lang (pattern_with init_rx)" and l: "line = p @ t"
    unfolding re_match_iff by blast
  from p obtain ws vis st core where
    q: "p = ws @ vis @ st @ core" and f: "spaces ws" "vis = [] \<or> visibility_form vis"
    "st = [] \<or> keyword_ws ''static'' st" "func_form core \<or> init_form core"
    unfolding lang_pattern_with [OF assms] by blast
  from l q have "line = ws @ vis @ st @ core @ t" by simp
  with f show "decl_shape init_form line"
    unfolding decl_shape_def by blast
next
  assume "decl_shape init_form line"
  then obtain ws vis st core rest where
    l: "line = ws @ vis @ st @ core @ rest" and f: "spaces ws" "vis = [] \<or> visibility_form vis"
    "st = [] \<or> keyword_ws ''static'' st" "func_form core \<or> init_form core"
    unfolding decl_shape_def by blast
  from f have "ws @ vis @ st @ core \<in> lang (pattern_with init_rx)"
    unfolding lang_pattern_with [OF assms] by blast
  moreover from l have "line = (ws @ vis @ st @ core) @ rest" by simp
  ultimately show "re_match (pattern_with init_rx) line"
    unfolding re_match_iff by blast
qed

lemma decl_pattern_eq: "decl_pattern = pattern_with (Seq (Lit ''init'') (Seq (Star Space) (Lit ''('')))"
  by (simp add: decl_pattern_def pattern_with_def)

lemma is_declaration_shape: "is_declaration line \<longleftrightarrow> decl_shape init_spaced line"
  unfolding is_declaration_def decl_pattern_eq
  by (rule shape_iff_match) (rule lang_init_spaced)

lemma immediate_shape: "re_match immediate_pattern line \<longleftrightarrow> decl_shape init_immediate line"
  unfolding immediate_pattern_def
  by (rule shape_iff_match) (rule lang_init_immediate)

lemma decl_shapeI:
  assumes "spaces ws" and "vis = [] \<or> visibility_form vis"
    and "st = [] \<or> keyword_ws ''static'' st" and "func_form core \<or> init_form core"
  shows "decl_shape init_form (ws @ vis @ st @ core @ rest)"
  unfolding decl_shape_def
  apply (rule exI [of _ ws], rule exI [of _ vis], rule exI [of _ st])
  apply (rule exI [of _ core], rule exI [of _ rest])
  using assms apply (intro conjI)
      apply (rule refl)
     apply assumption+
  done

lemma init_line_is_declaration:
  assumes "spaces ws" and "vis = [] \<or> visibility_form vis"
    and "st = [] \<or> keyword_ws ''static'' st" and "spaces sp"
  shows "is_declaration (ws @ vis @ st @ ''init'' @ sp @ ''('' @ rest)"
proof -
  have "init_spaced (''init'' @ sp @ ''('')"
    unfolding init_spaced_def using assms(4) by (intro exI [of _ sp]) simp
  then have "func_form (''init'' @ sp @ ''('') \<or> init_spaced (''init'' @ sp @ ''('')" ..
  with assms(1-3)
  have "decl_shape init_spaced (ws @ vis @ st @ (''init'' @ sp @ ''('') @ rest)"
    by (rule decl_shapeI)
  then have "decl_shape init_spaced (ws @ vis @ st @ ''init'' @ sp @ ''('' @ rest)"
    by (simp only: append_assoc)
  then show ?thesis by (simp only: is_declaration_shape)
qed

subsection \<open>Rounding to a double\<close>

lemma pow2_powi: "pow2 e = 2 powi e"
  by (simp add: pow2_def power_int_def inverse_eq_divide power_one_over)

lemma pow2_pos: "0 < pow2 e"
  by (simp add: pow2_powi)

lemma pow2_mono: "a \<le> b \<Longrightarrow> pow2 a \<le> pow2 b"
  by (simp add: pow2_powi power_int_increasing)

lemma pow2_less_iff: "pow2 a < pow2 b \<Longrightarrow> a < b"
  using pow2_mono [of b a] by (cases "a < b") auto

lemma pow2_add: "pow2 (a + b) = pow2 a * pow2 b"
  by (simp add: pow2_powi power_int_add)

lemma pow2_nat: "0 \<le> e \<Longrightarrow> pow2 e = of_int (2 ^ nat e)"
  by (simp add: pow2_def)

lemma pow2_neg_inverse: "pow2 e * pow2 (- e) = 1"
  using pow2_add [of e "- e"] by (simp add: pow2_def)

lemma binade_lower:
  assumes "0 < x"
  shows "pow2 (binade x) \<le> x"
proof -
  obtain p q where pq: "quotient_of x = (p, q)" by (cases "quotient_of x")
  then have q: "0 < q" and x: "x = of_int p / of_int q"
    by (auto dest: quotient_of_denom_pos quotient_of_div)
  with assms have p: "0 < p" by (simp add: zero_less_divide_iff)
  define d where "d = bitlen p - bitlen q"
  show ?thesis
  proof (cases "pow2 d \<le> x")
    case True
    then show ?thesis by (simp add: binade_def pq d_def)
  next
    case False
    have bp: "1 \<le> bitlen p" and bq: "1 \<le> bitlen q"
      using p q by (auto simp: bitlen_alt_def)
    have lo: "(2::rat) ^ nat (bitlen p - 1) \<le> of_int p"
    proof -
      have "2 ^ nat (bitlen p - 1) \<le> p" using bitlen_bounds [OF p] by simp
      then have "(of_int (2 ^ nat (bitlen p - 1)) :: rat) \<le> of_int p" by (simp only: of_int_le_iff)
      then show ?thesis by simp
    qed
    have hi: "of_int q \<le> (2::rat) ^ nat (bitlen q)"
    proof -
      have "q \<le> 2 ^ nat (bitlen q)" using bitlen_bounds [OF q] by simp
      then have "(of_int q :: rat) \<le> of_int (2 ^ nat (bitlen q))" by (simp only: of_int_le_iff)
      then show ?thesis by simp
    qed
    have "pow2 (d - 1) = pow2 (bitlen p - 1) * pow2 (- bitlen q)"
      using pow2_add [of "bitlen p - 1" "- bitlen q"] by (simp add: d_def algebra_simps)
    also have "\<dots> = 2 ^ nat (bitlen p - 1) / 2 ^ nat (bitlen q)"
      using bp bq by (simp add: pow2_def)
    also have "\<dots> \<le> of_int p / 2 ^ nat (bitlen q)"
      using lo by (simp add: divide_right_mono)
    also have "\<dots> \<le> of_int p / of_int q"
      using hi p q by (simp add: divide_left_mono)
    finally have "pow2 (d - 1) \<le> x" by (simp add: x)
    with False show ?thesis by (simp add: binade_def pq d_def)
  qed
qed

lemma binade_less: "0 < x \<Longrightarrow> x < pow2 (k + 1) \<Longrightarrow> binade x \<le> k"
  using binade_lower [of x] pow2_less_iff [of "binade x" "k + 1"] by simp

lemma round_half_even_cases: "round_half_even x = \<lfloor>x\<rfloor> \<or> round_half_even x = \<lfloor>x\<rfloor> + 1"
  by (simp add: round_half_even_def Let_def)

lemma round_half_even_error: "\<bar>of_int (round_half_even x) - x\<bar> \<le> 1 / 2"
proof -
  have "of_int \<lfloor>x\<rfloor> \<le> x" "x < of_int \<lfloor>x\<rfloor> + 1" by linarith+
  then show ?thesis
    by (auto simp: round_half_even_def Let_def abs_le_iff)
qed

lemma round_half_even_le: "x \<le> of_int k \<Longrightarrow> round_half_even x \<le> k"
proof -
  assume xk: "x \<le> of_int k"
  then have f: "\<lfloor>x\<rfloor> \<le> k" by (simp add: floor_le_iff)
  show ?thesis
  proof (cases "\<lfloor>x\<rfloor> = k")
    case True
    with xk have "x - of_int \<lfloor>x\<rfloor> \<le> 0" by simp
    then show ?thesis using True by (simp add: round_half_even_def Let_def)
  next
    case False
    with f have "\<lfloor>x\<rfloor> + 1 \<le> k" by simp
    then show ?thesis using round_half_even_cases [of x] by auto
  qed
qed

lemma round_half_even_nonneg: "0 \<le> x \<Longrightarrow> 0 \<le> round_half_even x"
  using round_half_even_cases [of x] by auto

lemma round_half_even_0: "round_half_even 0 = 0"
  by (simp add: round_half_even_def)

text \<open>
  Rounding a value between 0 and an integer \<open>c\<close> below \<open>2 ^ (k + 1)\<close>: the result is a
  double between 0 and \<open>c\<close>, at most half a unit in the last place away.
\<close>

lemma round_double_bounded:
  assumes x: "0 \<le> x" "x \<le> of_int c" and c: "of_int c < pow2 (k + 1)"
    and k: "- 1022 \<le> k" "k \<le> 52"
  shows "\<exists>y. round_double x = Some y \<and> 0 \<le> y \<and> y \<le> of_int c \<and> \<bar>y - x\<bar> \<le> pow2 (k - 53)"
proof (cases "x = 0")
  case True
  then show ?thesis using x pow2_pos [of "k - 53"] by (simp add: round_double_def)
next
  case False
  with x have xpos: "0 < x" by simp
  define e where "e = max (binade x) (- 1022)"
  define ulp where "ulp = pow2 (e - 52)"
  define y where "y = of_int (round_half_even (x / ulp)) * ulp"
  have "binade x \<le> k" using xpos x c by (intro binade_less) auto
  with k have ek: "e \<le> k" by (simp add: e_def)
  have ulp_pos: "0 < ulp" by (simp add: ulp_def pow2_pos)
  have ulp_le: "ulp \<le> pow2 (k - 52)" unfolding ulp_def using ek by (intro pow2_mono) simp
  have inv: "1 / ulp = of_int (2 ^ nat (52 - e))"
  proof -
    have "pow2 (e - 52) * pow2 (- (e - 52)) = 1" by (rule pow2_neg_inverse)
    moreover have "pow2 (- (e - 52)) = of_int (2 ^ nat (52 - e))"
      using ek k pow2_nat [of "52 - e"] by simp
    ultimately show ?thesis using ulp_pos by (simp add: ulp_def field_simps)
  qed
  have "x / ulp \<le> of_int c / ulp" using x ulp_pos by (simp add: divide_right_mono)
  also have "of_int c / ulp = of_int (c * 2 ^ nat (52 - e))"
  proof -
    have "of_int c / ulp = of_int c * (1 / ulp)" by simp
    also have "\<dots> = of_int c * of_int (2 ^ nat (52 - e))" by (simp only: inv)
    finally show ?thesis by simp
  qed
  finally have "round_half_even (x / ulp) \<le> c * 2 ^ nat (52 - e)" by (rule round_half_even_le)
  then have "(of_int (round_half_even (x / ulp)) :: rat) \<le> of_int (c * 2 ^ nat (52 - e))"
    by (simp only: of_int_le_iff)
  then have "y \<le> of_int (c * 2 ^ nat (52 - e)) * ulp"
    unfolding y_def using ulp_pos by (simp add: mult_right_mono)
  also have "\<dots> = of_int c * (of_int (2 ^ nat (52 - e)) * ulp)" by simp
  also have "of_int (2 ^ nat (52 - e)) * ulp = 1" using inv ulp_pos by (simp add: field_simps)
  finally have y_le: "y \<le> of_int c" by simp
  have "0 \<le> x / ulp" using x ulp_pos by simp
  then have "0 \<le> round_half_even (x / ulp)" by (rule round_half_even_nonneg)
  then have y_ge: "0 \<le> y" unfolding y_def using ulp_pos by simp
  have "\<bar>y - x\<bar> = \<bar>of_int (round_half_even (x / ulp)) - x / ulp\<bar> * ulp"
  proof -
    have "y - x = (of_int (round_half_even (x / ulp)) - x / ulp) * ulp"
      using ulp_pos by (simp add: y_def field_simps)
    then show ?thesis using ulp_pos by (simp add: abs_mult)
  qed
  also have "\<dots> \<le> (1 / 2) * ulp"
    using round_half_even_error [of "x / ulp"] ulp_pos by (intro mult_right_mono) auto
  also have "\<dots> \<le> (1 / 2) * pow2 (k - 52)" using ulp_le by simp
  also have "\<dots> = pow2 (k - 53)"
    using pow2_add [of "k - 53" 1] by (simp add: pow2_def)
  finally have err: "\<bar>y - x\<bar> \<le> pow2 (k - 53)" .
  have "y < pow2 1024"
  proof -
    have "y < pow2 (k + 1)" using y_le c by simp
    also have "\<dots> \<le> pow2 1024" using k by (intro pow2_mono) simp
    finally show ?thesis .
  qed
  then have "round_double x = Some y"
    using False by (simp add: round_double_def Let_def e_def ulp_def y_def)
  with y_ge y_le err show ?thesis by blast
qed

subsection \<open>The printed percentage\<close>

lemma percentage_zero_total: "funcs \<le> 0 \<Longrightarrow> percentage docs funcs = Inr (one_decimal 0)"
  by (simp add: percentage_def coverage_def float_of_int_def round_double_def one_decimal_def
      round_half_even_0)

lemma float_error_small: "1 / 20 + pow2 (- 47) + 100 * pow2 (- 53) \<le> (1 / 20 + 1 / 10 ^ 13 :: rat)"
  by (simp add: pow2_def)

lemma percentage_value:
  assumes "0 \<le> docs" "docs \<le> funcs"
  shows "\<exists>n. percentage docs funcs = Inr (one_decimal n) \<and> 0 \<le> n \<and> n \<le> 1000
           \<and> (if funcs = 0 then n = 0
               else \<bar>of_int n / 10 - 100 * of_int docs / of_int funcs\<bar> \<le> (1 / 20 + 1 / 10 ^ 13 :: rat))"
proof (cases "funcs = 0")
  case True
  then have "percentage docs funcs = Inr (one_decimal 0)" by (simp add: percentage_zero_total)
  with True show ?thesis by auto
next
  case False
  with assms have pos: "0 < funcs" by simp
  define x :: rat where "x = of_int docs / of_int funcs"
  have x: "0 \<le> x" "x \<le> of_int 1" using assms pos by (simp_all add: x_def)
  have "\<exists>q. round_double x = Some q \<and> 0 \<le> q \<and> q \<le> of_int 1 \<and> \<bar>q - x\<bar> \<le> pow2 (0 - 53)"
    using x by (rule round_double_bounded) (simp_all add: pow2_def)
  then obtain q where q: "round_double x = Some q" "0 \<le> q" "q \<le> 1" "\<bar>q - x\<bar> \<le> pow2 (- 53)"
    by auto
  have "\<exists>m. round_double (q * 100) = Some m \<and> 0 \<le> m \<and> m \<le> of_int 100
      \<and> \<bar>m - q * 100\<bar> \<le> pow2 (6 - 53)"
    using q(2,3) by (intro round_double_bounded) (simp_all add: pow2_def)
  then obtain m where m: "round_double (q * 100) = Some m" "0 \<le> m" "m \<le> 100"
      "\<bar>m - q * 100\<bar> \<le> pow2 (- 47)"
    by auto
  define n where "n = round_half_even (m * 10)"
  have n0: "0 \<le> n" unfolding n_def using m(2) by (intro round_half_even_nonneg) simp
  have "m * 10 \<le> of_int 1000" using m(3) by simp
  then have n1: "n \<le> 1000" unfolding n_def by (rule round_half_even_le)
  have en: "\<bar>of_int n - m * 10\<bar> \<le> 1 / 2" unfolding n_def by (rule round_half_even_error)
  have "\<bar>of_int docs\<bar> / \<bar>of_int funcs\<bar> = x" using assms pos by (simp add: x_def)
  then have "int_true_div docs funcs = Inr (Finite False q)"
    using q(1) assms pos by (simp add: int_true_div_def)
  then have "percentage docs funcs = Inr (one_decimal n)"
    using pos m(1) by (simp add: percentage_def coverage_def one_decimal_def Let_def n_def)
  moreover have "\<bar>of_int n / 10 - 100 * of_int docs / of_int funcs\<bar> \<le> (1 / 20 + 1 / 10 ^ 13 :: rat)"
  proof -
    have "of_int n / 10 - 100 * x = (of_int n / 10 - m) + (m - q * 100) + 100 * (q - x)"
      by (simp add: algebra_simps)
    also have "\<bar>\<dots>\<bar> \<le> \<bar>of_int n / 10 - m\<bar> + \<bar>m - q * 100\<bar> + \<bar>100 * (q - x)\<bar>"
      by (intro order_trans [OF abs_triangle_ineq] add_mono order_refl)
    also have "\<bar>100 * (q - x)\<bar> = 100 * \<bar>q - x\<bar>"
      using abs_mult [of 100 "q - x"] by simp
    finally have "\<bar>of_int n / 10 - 100 * x\<bar> \<le> \<bar>of_int n / 10 - m\<bar> + \<bar>m - q * 100\<bar> + 100 * \<bar>q - x\<bar>" .
    moreover have "\<bar>of_int n / 10 - m\<bar> \<le> 1 / 20" using en by linarith
    ultimately have "\<bar>of_int n / 10 - 100 * x\<bar> \<le> 1 / 20 + pow2 (- 47) + 100 * pow2 (- 53)"
      using m(4) q(4) by linarith
    then have "\<bar>of_int n / 10 - 100 * x\<bar> \<le> 1 / 20 + 1 / 10 ^ 13"
      using float_error_small by linarith
    then show ?thesis by (simp add: x_def)
  qed
  ultimately show ?thesis using False n0 n1 by auto
qed

lemma percentage_Inr: "0 \<le> docs \<Longrightarrow> docs \<le> funcs \<Longrightarrow> percentage docs funcs = Inr (percent_text docs funcs)"
  using percentage_value [of docs funcs] by (auto simp: percent_text_def)

lemma percentage_no_zero_division: "percentage docs funcs \<noteq> Inl ZeroDivisionError"
proof (cases "0 < funcs")
  case True
  then have "int_true_div docs funcs \<noteq> Inl ZeroDivisionError"
    by (simp add: int_true_div_def split: option.splits)
  with True show ?thesis
    by (auto simp: percentage_def coverage_def split: sum.splits)
next
  case False
  then show ?thesis by (simp add: percentage_zero_total)
qed

subsection \<open>One file, one directory, one walk\<close>

lemma analyze_lines_bounds:
  "0 \<le> snd (analyze_lines ls) \<and> snd (analyze_lines ls) \<le> fst (analyze_lines ls)"
  by (simp add: analyze_lines_eq)

lemma file_counts_bounds:
  "0 \<le> snd (file_counts f) \<and> snd (file_counts f) \<le> fst (file_counts f)"
  using analyze_lines_bounds by (simp add: file_counts_def split: option.splits)

lemma swift_files_eq:
  "swift_files tree = concat (map (\<lambda>t. filter is_swift (snd (snd t))) (walk top_dir tree))"
  by (simp add: swift_files_def case_prod_unfold)

lemma basename_join:
  assumes "CHR ''/'' \<notin> set file"
  shows "basename (join r file) = file"
proof -
  have tw: "takeWhile (\<lambda>c. c \<noteq> CHR ''/'') (rev file @ CHR ''/'' # xs) = rev file" for xs
  proof -
    have "takeWhile (\<lambda>c. c \<noteq> CHR ''/'') (rev file @ CHR ''/'' # xs)
        = rev file @ takeWhile (\<lambda>c. c \<noteq> CHR ''/'') (CHR ''/'' # xs)"
      by (rule takeWhile_append2) (use assms in auto)
    then show ?thesis by simp
  qed
  have tw0: "takeWhile (\<lambda>c. c \<noteq> CHR ''/'') (rev file) = rev file"
    by (rule takeWhile_eq_all_conv [THEN iffD2]) (use assms in auto)
  have nostart: "\<not> startswith file ''/''"
    using assms by (cases "file") (auto simp: startswith_def)
  show ?thesis
  proof (cases "r = []")
    case True
    with nostart have "basename (join r file) = rev (takeWhile (\<lambda>c. c \<noteq> CHR ''/'') (rev file))"
      by (simp add: join_def basename_def)
    then show ?thesis by (simp only: tw0 rev_rev_ident)
  next
    case False
    show ?thesis
    proof (cases "endswith r ''/''")
      case True
      then have "drop (length r - 1) r = ''/''" by (simp add: endswith_def)
      with False have "r = butlast r @ ''/''"
        by (metis append_butlast_last_id append_take_drop_id butlast_conv_take last_drop length_0_conv
            length_greater_0_conv diff_less zero_less_one last.simps)
      then obtain r' where "r = r' @ ''/''" ..
      with nostart True False show ?thesis
        using tw [of "rev r'"] by (simp add: join_def basename_def)
    next
      case e: False
      with nostart False show ?thesis
        using tw [of "rev r"] by (simp add: join_def basename_def)
    qed
  qed
qed

lemma after_files_Nil: "after_files [] st = st"
  by (simp add: after_files_def)

lemma after_files_append: "after_files (xs @ ys) st = after_files ys (after_files xs st)"
  by (simp add: after_files_def)

lemma after_files_Cons: "after_files (f # fs) st = after_files fs (after_files [f] st)"
  using after_files_append [of "[f]" fs st] by simp

lemma process_file_skip: "\<not> is_swift f \<Longrightarrow> process_file r f st = Inr st"
  by (cases f) (simp add: process_file_def is_swift_def)

lemma process_file_unreadable:
  "is_swift f \<Longrightarrow> \<not> readable f \<Longrightarrow> process_file r f st = Inl (FileReadError, st)"
  by (cases f) (simp add: process_file_def is_swift_def readable_def analyze_file_def)

lemma process_file_swift:
  assumes "is_swift f" "readable f" "plain_name f"
  shows "process_file r f st = Inr (after_files [f] st)"
proof -
  obtain name body where f: "f = (name, Some body)"
    using assms(2) by (cases f) (auto simp: readable_def)
  obtain funcs docs where c: "analyze_lines (readlines body) = (funcs, docs)"
    by (cases "analyze_lines (readlines body)")
  have "0 \<le> docs" "docs \<le> funcs" using analyze_lines_bounds [of "readlines body"] c by simp_all
  then have p: "percentage docs funcs = Inr (percent_text docs funcs)" by (rule percentage_Inr)
  have b: "basename (join r name) = name" using assms(3) f by (simp add: basename_join plain_name_def)
  have fc: "file_counts (name, Some body) = (funcs, docs)" by (simp add: file_counts_def c)
  show ?thesis
    using assms(1)
    by (simp add: process_file_def f is_swift_def analyze_file_def c p b Let_def print_def
        report_line_def after_files_def fc file_report_def)
qed

text \<open>Whatever the name of a readable file: the totals grow by its counts.\<close>

lemma process_file_totals:
  assumes "process_file r f st = Inr st' \<or> process_file r f st = Inl (e, st')"
  shows "(total_funcs st' = total_funcs st \<and> total_documented st' = total_documented st)
     \<or> (total_funcs st' = total_funcs st + fst (file_counts f)
          \<and> total_documented st' = total_documented st + snd (file_counts f))"
proof (cases "is_swift f")
  case False
  with assms show ?thesis by (simp add: process_file_skip)
next
  case True
  show ?thesis
  proof (cases "readable f")
    case False
    with True assms show ?thesis by (simp add: process_file_unreadable)
  next
    case r: True
    then obtain name body where f: "f = (name, Some body)"
      by (cases f) (auto simp: readable_def)
    obtain funcs docs where c: "analyze_lines (readlines body) = (funcs, docs)"
      by (cases "analyze_lines (readlines body)")
    have "0 \<le> docs" "docs \<le> funcs" using analyze_lines_bounds [of "readlines body"] c by simp_all
    then have p: "percentage docs funcs = Inr (percent_text docs funcs)" by (rule percentage_Inr)
    have fc: "file_counts (name, Some body) = (funcs, docs)" by (simp add: file_counts_def c)
    from assms True show ?thesis
      by (auto simp: process_file_def f is_swift_def analyze_file_def c p Let_def print_def fc)
  qed
qed

lemma process_file_error:
  assumes "process_file r f st = Inl (e, st')"
  shows "e = FileReadError"
proof (cases "is_swift f")
  case False
  with assms show ?thesis by (simp add: process_file_skip)
next
  case True
  show ?thesis
  proof (cases "readable f")
    case False
    with True assms show ?thesis by (simp add: process_file_unreadable)
  next
    case r: True
    then obtain name body where f: "f = (name, Some body)"
      by (cases f) (auto simp: readable_def)
    obtain funcs docs where c: "analyze_lines (readlines body) = (funcs, docs)"
      by (cases "analyze_lines (readlines body)")
    have "0 \<le> docs" "docs \<le> funcs" using analyze_lines_bounds [of "readlines body"] c by simp_all
    then have p: "percentage docs funcs = Inr (percent_text docs funcs)" by (rule percentage_Inr)
    from assms True show ?thesis
      by (auto simp: process_file_def f is_swift_def analyze_file_def c p Let_def)
  qed
qed

subsection \<open>The running totals stay consistent\<close>

lemma consistent_initial: "consistent initial"
  by (simp add: consistent_def initial_def)

lemma consistent_step:
  assumes "consistent st" "process_file r f st = Inr st' \<or> process_file r f st = Inl (e, st')"
  shows "consistent st'"
  using process_file_totals [OF assms(2)] assms(1) file_counts_bounds [of f]
  by (auto simp: consistent_def)

lemma file_states_unreadable: "file_states (name, None) st = []"
  by (simp add: file_states_def analyze_file_def)

lemma file_states_other: "\<not> endswith name ''.swift'' \<Longrightarrow> file_states (name, cont) st = []"
  by (simp add: file_states_def)

lemma file_states_swift:
  "endswith name ''.swift'' \<Longrightarrow> analyze_lines (readlines body) = (funcs, docs) \<Longrightarrow>
   file_states (name, Some body) st =
     [st\<lparr>total_funcs := total_funcs st + funcs\<rparr>,
      st\<lparr>total_funcs := total_funcs st + funcs, total_documented := total_documented st + docs\<rparr>]"
  by (simp add: file_states_def analyze_file_def)

lemma file_states_consistent:
  assumes "consistent st" "s \<in> set (file_states f st)"
  shows "consistent s"
proof -
  obtain name cont where f: "f = (name, cont)" by (cases f)
  from assms(2) have m: "s \<in> set (file_states (name, cont) st)" by (simp only: f)
  show ?thesis
  proof (cases "endswith name ''.swift''")
    case False
    then have "file_states (name, cont) st = []" by (rule file_states_other)
    with m have "s \<in> set []" by (simp only:)
    then show ?thesis by simp
  next
    case True
    show ?thesis
    proof (cases cont)
      case None
      with m have "s \<in> set []" by (simp only: file_states_unreadable)
      then show ?thesis by simp
    next
      case (Some body)
      obtain funcs docs where a: "analyze_lines (readlines body) = (funcs, docs)"
        by (cases "analyze_lines (readlines body)")
      have b: "0 \<le> docs" "docs \<le> funcs"
        using analyze_lines_bounds [of "readlines body"] a by simp_all
      from m Some have "s \<in> set [st\<lparr>total_funcs := total_funcs st + funcs\<rparr>,
          st\<lparr>total_funcs := total_funcs st + funcs, total_documented := total_documented st + docs\<rparr>]"
        by (simp only: file_states_swift [OF True a])
      then have "s = st\<lparr>total_funcs := total_funcs st + funcs\<rparr>
          \<or> s = st\<lparr>total_funcs := total_funcs st + funcs,
                   total_documented := total_documented st + docs\<rparr>"
        by (simp only: set_simps insert_iff empty_iff) blast
      with assms(1) b show ?thesis by (auto simp: consistent_def)
    qed
  qed
qed

lemma states_files_consistent:
  "consistent st \<Longrightarrow> s \<in> set (states_files r fs st) \<Longrightarrow> consistent s"
proof (induction fs arbitrary: st)
  case Nil
  then show ?case by simp
next
  case (Cons f fs)
  show ?case
  proof (cases "s \<in> set (file_states f st)")
    case True
    with Cons.prems(1) show ?thesis by (rule file_states_consistent)
  next
    case False
    show ?thesis
    proof (cases "process_file r f st")
      case (Inl p)
      obtain e st' where p: "p = (e, st')" by (cases p)
      with Inl Cons.prems False have "s = st'" by simp
      moreover have "consistent st'" using Cons.prems(1) Inl p consistent_step by blast
      ultimately show ?thesis by simp
    next
      case (Inr st')
      then have c: "consistent st'" using Cons.prems(1) consistent_step by blast
      from Inr Cons.prems(2) False have "s = st' \<or> s \<in> set (states_files r fs st')" by simp
      with c Cons.IH show ?thesis by blast
    qed
  qed
qed

lemma scan_files_consistent:
  "consistent st \<Longrightarrow> scan_files r fs st = Inr st' \<or> scan_files r fs st = Inl (e, st')
    \<Longrightarrow> consistent st'"
proof (induction fs arbitrary: st)
  case Nil
  then show ?case by simp
next
  case (Cons f fs)
  show ?case
  proof (cases "process_file r f st")
    case (Inl p)
    with Cons.prems have "process_file r f st = Inl (e, st')" by simp
    with Cons.prems(1) show ?thesis using consistent_step by blast
  next
    case (Inr st1)
    then have "consistent st1" using Cons.prems(1) consistent_step by blast
    moreover from Inr Cons.prems(2)
    have "scan_files r fs st1 = Inr st' \<or> scan_files r fs st1 = Inl (e, st')" by simp
    ultimately show ?thesis by (rule Cons.IH)
  qed
qed

lemma scan_files_error: "scan_files r fs st = Inl (e, st') \<Longrightarrow> e = FileReadError"
proof (induction fs arbitrary: st)
  case Nil
  then show ?case by simp
next
  case (Cons f fs)
  show ?case
  proof (cases "process_file r f st")
    case (Inl p)
    with Cons.prems have "process_file r f st = Inl (e, st')" by simp
    then show ?thesis by (rule process_file_error)
  next
    case (Inr st1)
    with Cons.prems have "scan_files r fs st1 = Inl (e, st')" by simp
    then show ?thesis by (rule Cons.IH)
  qed
qed

lemma states_walk_consistent:
  "consistent st \<Longrightarrow> s \<in> set (states_walk ts st) \<Longrightarrow> consistent s"
proof (induction ts arbitrary: st)
  case Nil
  then show ?case by simp
next
  case (Cons t ts)
  obtain r ds fs where t: "t = (r, ds, fs)" by (cases t)
  show ?case
  proof (cases "s \<in> set (states_files r fs st)")
    case True
    with Cons.prems(1) show ?thesis by (rule states_files_consistent)
  next
    case False
    with Cons.prems(2) t obtain st1 where
      s1: "scan_files r fs st = Inr st1" and m: "s \<in> set (states_walk ts st1)"
      by (cases "scan_files r fs st") auto
    from Cons.prems(1) s1 have "consistent st1" using scan_files_consistent by blast
    then show ?thesis using m by (rule Cons.IH)
  qed
qed

lemma scan_walk_consistent:
  "consistent st \<Longrightarrow> scan_walk ts st = Inr st' \<or> scan_walk ts st = Inl (e, st')
    \<Longrightarrow> consistent st'"
proof (induction ts arbitrary: st)
  case Nil
  then show ?case by simp
next
  case (Cons t ts)
  obtain r ds fs where t: "t = (r, ds, fs)" by (cases t)
  show ?case
  proof (cases "scan_files r fs st")
    case (Inl p)
    with Cons.prems t have "scan_files r fs st = Inl (e, st')" by simp
    with Cons.prems(1) show ?thesis using scan_files_consistent by blast
  next
    case (Inr st1)
    then have "consistent st1" using Cons.prems(1) scan_files_consistent by blast
    moreover from Inr Cons.prems(2) t
    have "scan_walk ts st1 = Inr st' \<or> scan_walk ts st1 = Inl (e, st')" by simp
    ultimately show ?thesis by (rule Cons.IH)
  qed
qed

lemma scan_walk_error: "scan_walk ts st = Inl (e, st') \<Longrightarrow> e = FileReadError"
proof (induction ts arbitrary: st)
  case Nil
  then show ?case by simp
next
  case (Cons t ts)
  obtain r ds fs where t: "t = (r, ds, fs)" by (cases t)
  show ?case
  proof (cases "scan_files r fs st")
    case (Inl p)
    with Cons.prems t have "scan_files r fs st = Inl (e, st')" by simp
    then show ?thesis by (rule scan_files_error)
  next
    case (Inr st1)
    with Cons.prems t have "scan_walk ts st1 = Inl (e, st')" by simp
    then show ?thesis by (rule Cons.IH)
  qed
qed

lemma print_overall_eq:
  assumes "consistent st"
  shows "print_overall st
    = Inr (st\<lparr>stdout := stdout st @ overall_report (total_documented st) (total_funcs st)\<rparr>)"
proof -
  have "percentage (total_documented st) (total_funcs st)
      = Inr (percent_text (total_documented st) (total_funcs st))"
    using assms by (intro percentage_Inr) (simp_all add: consistent_def)
  then show ?thesis
    by (simp add: print_overall_def print_def report_line_def overall_report_def)
qed

lemma main_cases:
  "(\<exists>e st. scan_walk (walk top_dir tree) initial = Inl (e, st) \<and> main tree = Inl (e, st))
   \<or> (\<exists>st. scan_walk (walk top_dir tree) initial = Inr st \<and> consistent st
        \<and> main tree = Inr (st\<lparr>stdout := stdout st @ overall_report (total_documented st) (total_funcs st)\<rparr>))"
proof (cases "scan_walk (walk top_dir tree) initial")
  case (Inl p)
  then show ?thesis by (cases p) (simp add: main_def)
next
  case (Inr st)
  then have "consistent st" using consistent_initial scan_walk_consistent by blast
  with Inr show ?thesis by (simp add: main_def print_overall_eq)
qed

lemma main_consistent:
  assumes "main tree = Inr st \<or> main tree = Inl (e, st)"
  shows "consistent st"
  using main_cases [of tree]
proof (elim disjE exE conjE)
  fix e' st'
  assume a: "scan_walk (walk top_dir tree) initial = Inl (e', st')" and m: "main tree = Inl (e', st')"
  from m assms have "st = st'" by auto
  moreover from a have "consistent st'" using consistent_initial scan_walk_consistent by blast
  ultimately show ?thesis by simp
next
  fix st'
  assume c: "consistent st'"
    and m: "main tree = Inr (st'\<lparr>stdout := stdout st' @ overall_report (total_documented st') (total_funcs st')\<rparr>)"
  from m assms
  have "st = st'\<lparr>stdout := stdout st' @ overall_report (total_documented st') (total_funcs st')\<rparr>"
    by auto
  with c show ?thesis by (simp add: consistent_def)
qed

lemma main_error:
  assumes "main tree = Inl (e, st)"
  shows "e = FileReadError"
  using main_cases [of tree]
proof (elim disjE exE conjE)
  fix e' st'
  assume a: "scan_walk (walk top_dir tree) initial = Inl (e', st')" and m: "main tree = Inl (e', st')"
  from m assms have "e = e'" by simp
  moreover from a have "e' = FileReadError" by (rule scan_walk_error)
  ultimately show ?thesis by simp
next
  fix st'
  assume "main tree = Inr (st'\<lparr>stdout := stdout st' @ overall_report (total_documented st') (total_funcs st')\<rparr>)"
  with assms show ?thesis by simp
qed

lemma run_states_consistent: "s \<in> set (run_states tree) \<Longrightarrow> consistent s"
proof -
  assume "s \<in> set (run_states tree)"
  then consider "s = initial" | "s \<in> set (states_walk (walk top_dir tree) initial)"
    | e where "main tree = Inl (e, s)" | "main tree = Inr s"
    by (auto simp: run_states_def split: sum.splits)
  then show ?thesis
  proof cases
    case 1
    then show ?thesis by (simp add: consistent_initial)
  next
    case 2
    with consistent_initial show ?thesis by (rule states_walk_consistent)
  next
    case 3
    then show ?thesis using main_consistent by blast
  next
    case 4
    then show ?thesis using main_consistent by blast
  qed
qed

subsection \<open>What a run writes when every Swift file can be read\<close>

lemma scan_files_after:
  assumes "list_all readable (filter is_swift fs)" "list_all plain_name (filter is_swift fs)"
  shows "scan_files r fs st = Inr (after_files (filter is_swift fs) st)"
  using assms
proof (induction fs arbitrary: st)
  case Nil
  show ?case by (simp add: after_files_Nil)
next
  case (Cons f fs)
  show ?case
  proof (cases "is_swift f")
    case False
    with Cons show ?thesis by (simp add: process_file_skip)
  next
    case True
    with Cons.prems have "process_file r f st = Inr (after_files [f] st)"
      by (intro process_file_swift) simp_all
    moreover from True Cons.prems
    have "scan_files r fs (after_files [f] st) = Inr (after_files (filter is_swift fs) (after_files [f] st))"
      by (intro Cons.IH) simp_all
    ultimately show ?thesis
      using True by (simp add: after_files_Cons [of f "filter is_swift fs"])
  qed
qed

lemma scan_walk_after:
  assumes "list_all readable (concat (map (\<lambda>t. filter is_swift (snd (snd t))) ts))"
    and "list_all plain_name (concat (map (\<lambda>t. filter is_swift (snd (snd t))) ts))"
  shows "scan_walk ts st = Inr (after_files (concat (map (\<lambda>t. filter is_swift (snd (snd t))) ts)) st)"
  using assms
proof (induction ts arbitrary: st)
  case Nil
  show ?case by (simp add: after_files_Nil)
next
  case (Cons t ts)
  obtain r ds fs where t: "t = (r, ds, fs)" by (cases t)
  from Cons.prems t have "scan_files r fs st = Inr (after_files (filter is_swift fs) st)"
    by (intro scan_files_after) simp_all
  moreover from Cons.prems
  have "scan_walk ts (after_files (filter is_swift fs) st)
      = Inr (after_files (concat (map (\<lambda>t. filter is_swift (snd (snd t))) ts))
               (after_files (filter is_swift fs) st))"
    by (intro Cons.IH) simp_all
  ultimately show ?case by (simp add: t after_files_append)
qed

lemma after_files_initial:
  "after_files fs initial =
     \<lparr>total_funcs = sum_list (map (fst \<circ> file_counts) fs),
      total_documented = sum_list (map (snd \<circ> file_counts) fs),
      stdout = concat (map file_report fs)\<rparr>"
  by (simp add: after_files_def initial_def)

lemma sum_counts_bounds:
  "0 \<le> sum_list (map (snd \<circ> file_counts) fs)
   \<and> sum_list (map (snd \<circ> file_counts) fs) \<le> sum_list (map (fst \<circ> file_counts) fs)"
  using file_counts_bounds by (induction fs) (auto simp: add_mono)

lemma main_after:
  assumes "list_all readable (swift_files tree)" "list_all plain_name (swift_files tree)"
  shows "main tree =
     Inr \<lparr>total_funcs = sum_list (map (fst \<circ> file_counts) (swift_files tree)),
          total_documented = sum_list (map (snd \<circ> file_counts) (swift_files tree)),
          stdout = concat (map file_report (swift_files tree))
                   @ overall_report (sum_list (map (snd \<circ> file_counts) (swift_files tree)))
                                    (sum_list (map (fst \<circ> file_counts) (swift_files tree)))\<rparr>"
proof -
  have s: "scan_walk (walk top_dir tree) initial = Inr (after_files (swift_files tree) initial)"
    unfolding swift_files_eq using assms [unfolded swift_files_eq] by (rule scan_walk_after)
  have c: "consistent (after_files (swift_files tree) initial)"
    using sum_counts_bounds [of "swift_files tree"] by (simp add: after_files_initial consistent_def)
  have "main tree = print_overall (after_files (swift_files tree) initial)"
    by (simp only: main_def s sum.case)
  also have "\<dots> = Inr ((after_files (swift_files tree) initial)
      \<lparr>stdout := stdout (after_files (swift_files tree) initial)
         @ overall_report (total_documented (after_files (swift_files tree) initial))
                          (total_funcs (after_files (swift_files tree) initial))\<rparr>)"
    using c by (rule print_overall_eq)
  finally show ?thesis by (simp add: after_files_initial)
qed

lemma sum_list_mset_cong:
  "mset xs = mset ys \<Longrightarrow> sum_list (map g xs) = (sum_list (map g ys) :: int)"
proof -
  assume "mset xs = mset ys"
  then have "mset (map g xs) = mset (map g ys)" by (metis mset_map)
  then have "sum_mset (mset (map g xs)) = sum_mset (mset (map g ys))" by simp
  then show ?thesis by (simp only: sum_mset_sum_list)
qed

lemma list_all_mset_cong: "mset xs = mset ys \<Longrightarrow> list_all P xs = list_all P ys"
  by (metis list_all_iff mset_eq_setD)

section \<open>The claims\<close>

text \<open>
  Claim C1, as stated: a line is a declaration exactly when it has the shape with
  \<^verbatim>\<open>init\<close> followed immediately by the parenthesis. The line \<^verbatim>\<open>init (\<close> is classified as
  a declaration and does not have that shape.
\<close>

theorem init_immediate_counterexample:
  "is_declaration ''init ('' \<and> \<not> decl_shape init_immediate ''init (''"
proof
  show "is_declaration ''init (''" by code_simp
next
  have "\<not> re_match immediate_pattern ''init (''" by code_simp
  then show "\<not> decl_shape init_immediate ''init (''" unfolding immediate_shape .
qed

text \<open>
  Claim C1, amended: a line is classified as a declaration exactly when it is, in this
  order, whitespace (possibly none), optionally one of \<^verbatim>\<open>public\<close>, \<^verbatim>\<open>private\<close>,
  \<^verbatim>\<open>internal\<close>, \<^verbatim>\<open>fileprivate\<close> with whitespace behind it, optionally \<^verbatim>\<open>static\<close> with
  whitespace behind it, and then either \<^verbatim>\<open>func\<close>, whitespace and at least one word
  character, or \<^verbatim>\<open>init\<close>, whitespace (possibly none) and an opening parenthesis;
  what follows is ignored. The line \<^verbatim>\<open>public static func bar() {\<close> is a declaration, and
  the file made of it and a closing brace has one declaration.
\<close>

theorem declaration_iff_shape:
  "(is_declaration line \<longleftrightarrow> decl_shape init_spaced line)
   \<and> is_declaration ''public static func bar() {''
   \<and> fst (analyze_lines (readlines ''public static func bar() {\<newline>}\<newline>'')) = 1"
proof (intro conjI)
  show "is_declaration line \<longleftrightarrow> decl_shape init_spaced line" by (rule is_declaration_shape)
  show "is_declaration ''public static func bar() {''" by code_simp
  show "fst (analyze_lines (readlines ''public static func bar() {\<newline>}\<newline>'')) = 1"
    by code_simp
qed

theorem declaration_iff_shape_witness:
  "decl_shape init_spaced ''  private static init  (x: Int)''"
proof -
  have "is_declaration ''  private static init  (x: Int)''" by code_simp
  with declaration_iff_shape [of "''  private static init  (x: Int)''"] show ?thesis by blast
qed

text \<open>
  Claim C2. The declaration at index \<open>i\<close> is counted as documented exactly when some line
  \<open>j\<close> of the window \<open>[max(0, i - 10), i)\<close> contains \<^verbatim>\<open>///\<close> somewhere; the analyzer
  returns the number of declarations and the number of those with such a line. A file
  whose only declaration is on line 11 and that has \<^verbatim>\<open>///\<close> on no line but line 0 gives
  (1, 0), as does the text with \<^verbatim>\<open>/// doc\<close> on line 0, ten empty lines and a declaration.
\<close>

theorem documented_iff_marker_in_window:
  "(has_doc lines i \<longleftrightarrow> (\<exists>j. marker_in_window lines i j))
   \<and> analyze_lines lines =
       (int (card {i. i < length lines \<and> is_declaration (lines ! i)}),
        int (card {i. i < length lines \<and> is_declaration (lines ! i)
                      \<and> (\<exists>j. marker_in_window lines i j)}))
   \<and> (decl_indices lines = [11]
        \<and> (\<forall>j a b. j < length lines \<and> lines ! j = a @ ''///'' @ b \<longrightarrow> j = 0)
       \<longrightarrow> analyze_lines lines = (1, 0))
   \<and> analyze_file (Some (''/// doc\<newline>'' @ replicate 10 (CHR 0x0A) @ ''func foo() {}\<newline>''))
       = Inr (1, 0)"
proof (intro conjI impI)
  show "has_doc lines i \<longleftrightarrow> (\<exists>j. marker_in_window lines i j)" by (rule has_doc_iff)
  show "analyze_lines lines =
       (int (card {i. i < length lines \<and> is_declaration (lines ! i)}),
        int (card {i. i < length lines \<and> is_declaration (lines ! i)
                      \<and> (\<exists>j. marker_in_window lines i j)}))"
    unfolding has_doc_iff [symmetric] by (rule analyze_lines_card)
  show "analyze_file (Some (''/// doc\<newline>'' @ replicate 10 (CHR 0x0A) @ ''func foo() {}\<newline>''))
       = Inr (1, 0)"
    by code_simp
next
  assume h: "decl_indices lines = [11]
        \<and> (\<forall>j a b. j < length lines \<and> lines ! j = a @ ''///'' @ b \<longrightarrow> j = 0)"
  have "\<not> has_doc lines 11"
  proof
    assume "has_doc lines 11"
    then obtain j where "marker_in_window lines 11 j" unfolding has_doc_iff ..
    then have "1 \<le> j" "j < length lines" "\<exists>a b. lines ! j = a @ ''///'' @ b"
      by (auto simp: marker_in_window_def)
    with h show False by auto
  qed
  with h show "analyze_lines lines = (1, 0)" by (simp add: analyze_lines_eq)
qed

theorem documented_iff_marker_in_window_witness:
  "decl_indices (''/// doc\<newline>'' # replicate 10 ''\<newline>'' @ [''func foo() {}\<newline>'']) = [11]
   \<and> list_all (\<lambda>l. \<not> contains ''///'' l)
        (tl (''/// doc\<newline>'' # replicate 10 ''\<newline>'' @ [''func foo() {}\<newline>'']))
   \<and> analyze_lines (''/// doc\<newline>'' # replicate 10 ''\<newline>'' @ [''func foo() {}\<newline>'']) = (1, 0)"
  (is "decl_indices ?L = [11] \<and> ?n \<and> analyze_lines ?L = (1, 0)")
proof -
  have d: "decl_indices ?L = [11]" by code_simp
  have n: ?n by code_simp
  have "\<forall>j a b. j < length ?L \<and> ?L ! j = a @ ''///'' @ b \<longrightarrow> j = 0"
    using marker_only_on_first_line [OF n] by blast
  with d documented_iff_marker_in_window [of ?L] have "analyze_lines ?L = (1, 0)" by blast
  with d n show ?thesis by (intro conjI)
qed

text \<open>
  Claim C3. The pair \<open>(total, documented)\<close> that the analyzer returns for a file
  satisfies \<open>0 \<le> documented \<le> total\<close>, and every state a run passes through (the initial
  one, those between and after the two additions made for a file, the one after each
  file, the final one) has \<open>total_documented \<le> total_funcs\<close>.
\<close>

theorem counts_are_consistent:
  "(analyze_file content = Inr (tot, documented) \<longrightarrow> 0 \<le> documented \<and> documented \<le> tot)
   \<and> (\<forall>st \<in> set (run_states tree). total_documented st \<le> total_funcs st)"
proof (intro conjI impI ballI)
  assume a: "analyze_file content = Inr (tot, documented)"
  then obtain body where "analyze_lines (readlines body) = (tot, documented)"
    by (cases content) (auto simp: analyze_file_def)
  with analyze_lines_bounds [of "readlines body"]
  show "0 \<le> documented" "documented \<le> tot" by simp_all
next
  fix st assume "st \<in> set (run_states tree)"
  then have "consistent st" by (rule run_states_consistent)
  then show "total_documented st \<le> total_funcs st" by (simp add: consistent_def)
qed

theorem counts_are_consistent_witness:
  "analyze_file (Some ''/// d\<newline>func f()\<newline>init(\<newline>'') = Inr (2, 2)
   \<and> (0::int) \<le> 2 \<and> (2::int) \<le> 2
   \<and> \<lparr>total_funcs = 3, total_documented = 2,
        stdout = ''a.swift: 2/2 (100.0%)\<newline>b.swift: 0/1 (0.0%)\<newline>''\<rparr>
      \<in> set (run_states [File ''a.swift'' (Some ''/// d\<newline>func f()\<newline>init(\<newline>''),
                           File ''b.swift'' (Some ''func g()'')])
   \<and> total_documented \<lparr>total_funcs = 3, total_documented = 2,
        stdout = ''a.swift: 2/2 (100.0%)\<newline>b.swift: 0/1 (0.0%)\<newline>''\<rparr>
     \<le> total_funcs \<lparr>total_funcs = 3, total_documented = 2,
        stdout = ''a.swift: 2/2 (100.0%)\<newline>b.swift: 0/1 (0.0%)\<newline>''\<rparr>"
proof -
  have a: "analyze_file (Some ''/// d\<newline>func f()\<newline>init(\<newline>'') = Inr (2, 2)"
    by code_simp
  have m: "\<lparr>total_funcs = 3, total_documented = 2,
        stdout = ''a.swift: 2/2 (100.0%)\<newline>b.swift: 0/1 (0.0%)\<newline>''\<rparr>
      \<in> set (run_states [File ''a.swift'' (Some ''/// d\<newline>func f()\<newline>init(\<newline>''),
                           File ''b.swift'' (Some ''func g()'')])"
    by code_simp
  from counts_are_consistent
    [of "Some ''/// d\<newline>func f()\<newline>init(\<newline>''" 2 2
        "[File ''a.swift'' (Some ''/// d\<newline>func f()\<newline>init(\<newline>''),
          File ''b.swift'' (Some ''func g()'')]"] a m
  show ?thesis by blast
qed

text \<open>
  Claim C4. The percentage printed for \<open>docs\<close> documented out of \<open>funcs\<close> declarations
  never raises a division by zero, neither does a run; it is \<^verbatim>\<open>0.0\<close> when \<open>funcs\<close> is 0;
  and when \<open>0 \<le> docs \<le> funcs\<close> and \<open>funcs > 0\<close> it is a numeral with one digit after the
  point, between 0.0 and 100.0, whose value differs from \<open>docs / funcs * 100\<close> by at most
  0.05 (half a unit of the printed digit) and the error of the two floating-point
  operations, less than \<open>10\<^sup>-\<^sup>1\<^sup>3\<close>. For 0 out of 0 it is \<^verbatim>\<open>0.0\<close>, for 1 out of 3 \<^verbatim>\<open>33.3\<close>.
\<close>

theorem percentage_one_decimal:
  "percentage docs funcs \<noteq> Inl ZeroDivisionError
   \<and> main tree \<noteq> Inl (ZeroDivisionError, st)
   \<and> percentage 0 0 = Inr ''0.0''
   \<and> percentage 1 3 = Inr ''33.3''
   \<and> (funcs = 0 \<longrightarrow> percentage docs funcs = Inr ''0.0'')
   \<and> (0 \<le> docs \<and> docs \<le> funcs \<and> 0 < funcs \<longrightarrow>
        (\<exists>n. percentage docs funcs = Inr (one_decimal n) \<and> 0 \<le> n \<and> n \<le> 1000
           \<and> \<bar>of_int n / 10 - 100 * of_int docs / of_int funcs\<bar> \<le> (1 / 20 + 1 / 10 ^ 13 :: rat)))"
proof (intro conjI impI)
  show "percentage docs funcs \<noteq> Inl ZeroDivisionError" by (rule percentage_no_zero_division)
  show "main tree \<noteq> Inl (ZeroDivisionError, st)" using main_error [of tree ZeroDivisionError st] by auto
  show "percentage 0 0 = Inr ''0.0''" by code_simp
  show "percentage 1 3 = Inr ''33.3''" by code_simp
next
  assume "funcs = 0"
  moreover have "one_decimal 0 = ''0.0''" by code_simp
  ultimately show "percentage docs funcs = Inr ''0.0''" by (simp add: percentage_zero_total)
next
  assume "0 \<le> docs \<and> docs \<le> funcs \<and> 0 < funcs"
  then show "\<exists>n. percentage docs funcs = Inr (one_decimal n) \<and> 0 \<le> n \<and> n \<le> 1000
           \<and> \<bar>of_int n / 10 - 100 * of_int docs / of_int funcs\<bar> \<le> (1 / 20 + 1 / 10 ^ 13 :: rat)"
    using percentage_value [of docs funcs] by auto
qed

theorem percentage_one_decimal_witness:
  "percentage 5 0 = Inr ''0.0''
   \<and> (\<exists>n. percentage 2 3 = Inr (one_decimal n) \<and> 0 \<le> n \<and> n \<le> 1000
           \<and> \<bar>of_int n / 10 - 100 * of_int 2 / of_int 3\<bar> \<le> (1 / 20 + 1 / 10 ^ 13 :: rat))"
proof
  show "percentage 5 0 = Inr ''0.0''"
    using percentage_one_decimal [of 5 0] by simp
next
  have "(0::int) \<le> 2 \<and> (2::int) \<le> 3 \<and> (0::int) < 3" by simp
  with percentage_one_decimal [of 2 3]
  show "\<exists>n. percentage 2 3 = Inr (one_decimal n) \<and> 0 \<le> n \<and> n \<le> 1000
           \<and> \<bar>of_int n / 10 - 100 * of_int 2 / of_int 3\<bar> \<le> (1 / 20 + 1 / 10 ^ 13 :: rat)"
    by blast
qed

text \<open>
  Claim C5, as stated: in every run each file whose name ends in \<^verbatim>\<open>.swift\<close> gets its
  line and the summary follows. A run that meets such a file it cannot read stops at
  it with the exception, which nothing catches: of three Swift files with the second
  unreadable, only the first gets a line, and no summary is written.
\<close>

theorem unreadable_file_counterexample:
  "(''b.swift'', None) \<in> set (swift_files
      [File ''a.swift'' (Some ''func f()''), File ''b.swift'' None, File ''c.swift'' (Some '''')])
   \<and> (''c.swift'', Some []) \<in> set (swift_files
      [File ''a.swift'' (Some ''func f()''), File ''b.swift'' None, File ''c.swift'' (Some '''')])
   \<and> main [File ''a.swift'' (Some ''func f()''), File ''b.swift'' None, File ''c.swift'' (Some '''')]
     = Inl (FileReadError,
            \<lparr>total_funcs = 1, total_documented = 0, stdout = ''a.swift: 0/1 (0.0%)\<newline>''\<rparr>)"
  by code_simp

text \<open>
  Claim C5, amended: in every run in which every file whose name ends in \<^verbatim>\<open>.swift\<close>
  can be read (names hold no slash, as the names of directory entries do), the run
  writes, for each such file in the order of the walk, the one line
  \<^verbatim>\<open><name>: <documented>/<total> (<percentage>%)\<close> with the name as it stands in its
  directory, then an empty line, then the line
  \<^verbatim>\<open>Overall: <documented>/<total> (<percentage>%)\<close> for the sums of the counts.
\<close>

theorem report_lines:
  assumes "list_all readable (swift_files tree)" and "list_all plain_name (swift_files tree)"
  shows "main tree =
     Inr \<lparr>total_funcs = sum_list (map (fst \<circ> file_counts) (swift_files tree)),
          total_documented = sum_list (map (snd \<circ> file_counts) (swift_files tree)),
          stdout = concat (map file_report (swift_files tree))
                   @ overall_report (sum_list (map (snd \<circ> file_counts) (swift_files tree)))
                                    (sum_list (map (fst \<circ> file_counts) (swift_files tree)))\<rparr>"
  using assms by (rule main_after)

theorem report_lines_witness:
  "list_all readable (swift_files
      [File ''a.swift'' (Some ''/// d\<newline>func f()\<newline>init(\<newline>''),
       Dir ''sub'' [File ''b.swift'' (Some ''func g()\<newline>func h()\<newline>func k()''), File ''c.txt'' None,
                    Dir ''deep'' [File ''d.swift'' (Some '''')]],
       File ''z.swift'' (Some ''  init ('')])
   \<and> list_all plain_name (swift_files
      [File ''a.swift'' (Some ''/// d\<newline>func f()\<newline>init(\<newline>''),
       Dir ''sub'' [File ''b.swift'' (Some ''func g()\<newline>func h()\<newline>func k()''), File ''c.txt'' None,
                    Dir ''deep'' [File ''d.swift'' (Some '''')]],
       File ''z.swift'' (Some ''  init ('')])
   \<and> main
      [File ''a.swift'' (Some ''/// d\<newline>func f()\<newline>init(\<newline>''),
       Dir ''sub'' [File ''b.swift'' (Some ''func g()\<newline>func h()\<newline>func k()''), File ''c.txt'' None,
                    Dir ''deep'' [File ''d.swift'' (Some '''')]],
       File ''z.swift'' (Some ''  init ('')]
     = Inr \<lparr>total_funcs = 6, total_documented = 2,
            stdout = ''a.swift: 2/2 (100.0%)\<newline>z.swift: 0/1 (0.0%)\<newline>b.swift: 0/3 (0.0%)\<newline>d.swift: 0/0 (0.0%)\<newline>\<newline>Overall: 2/6 (33.3%)\<newline>''\<rparr>"
  (is "?r \<and> ?p \<and> main ?t = Inr ?st")
proof -
  have r: ?r by code_simp
  have p: ?p by code_simp
  have e: "\<lparr>total_funcs = sum_list (map (fst \<circ> file_counts) (swift_files ?t)),
          total_documented = sum_list (map (snd \<circ> file_counts) (swift_files ?t)),
          stdout = concat (map file_report (swift_files ?t))
                   @ overall_report (sum_list (map (snd \<circ> file_counts) (swift_files ?t)))
                                    (sum_list (map (fst \<circ> file_counts) (swift_files ?t)))\<rparr> = ?st"
    by code_simp
  from report_lines [OF r p] have "main ?t = Inr ?st" by (simp only: e)
  with r p show ?thesis by blast
qed

text \<open>
  Claim C6, as stated: with no file to report the whole output is the text
  \<^verbatim>\<open>Overall: 0/0 (0.0%)\<close>. On the empty tree the output is a different text: the summary
  is printed with a newline before it, and \<^verbatim>\<open>print\<close> ends it with another.
\<close>

theorem no_swift_files_counterexample:
  "written (main []) \<noteq> ''Overall: 0/0 (0.0%)''"
  by code_simp

text \<open>
  Claim C6, amended: for a tree without any file whose name ends in \<^verbatim>\<open>.swift\<close>, the
  whole output is an empty line followed by the line \<^verbatim>\<open>Overall: 0/0 (0.0%)\<close>.
\<close>

theorem no_swift_files_output:
  assumes "swift_files tree = []"
  shows "main tree = Inr \<lparr>total_funcs = 0, total_documented = 0,
                          stdout = ''\<newline>Overall: 0/0 (0.0%)\<newline>''\<rparr>"
proof -
  have "main tree = Inr \<lparr>total_funcs = 0, total_documented = 0, stdout = overall_report 0 0\<rparr>"
    using main_after [of tree] assms by simp
  moreover have "overall_report 0 0 = ''\<newline>Overall: 0/0 (0.0%)\<newline>''" by code_simp
  ultimately show ?thesis by simp
qed

theorem no_swift_files_output_witness:
  "swift_files [File ''README.md'' None, Dir ''docs'' [File ''notes.txt'' (Some ''func f()'')], Dir ''x.swift'' []] = []
   \<and> main [File ''README.md'' None, Dir ''docs'' [File ''notes.txt'' (Some ''func f()'')], Dir ''x.swift'' []]
     = Inr \<lparr>total_funcs = 0, total_documented = 0, stdout = ''\<newline>Overall: 0/0 (0.0%)\<newline>''\<rparr>"
proof -
  have s: "swift_files [File ''README.md'' None, Dir ''docs'' [File ''notes.txt'' (Some ''func f()'')], Dir ''x.swift'' []] = []"
    by code_simp
  from s no_swift_files_output [OF s] show ?thesis by blast
qed

text \<open>
  Claim C7. A declaration on line 0 is never counted as documented: its window
  \<^verbatim>\<open>lines[0:0]\<close> is empty, so the test of the second loop fails for \<open>line_num = 0\<close>
  whatever the file holds; and a file whose first line is a declaration has fewer
  documented declarations than declarations.
\<close>

theorem line_zero_never_documented:
  "\<not> has_doc lines 0
   \<and> (is_declaration l \<longrightarrow> snd (analyze_lines (l # rest)) < fst (analyze_lines (l # rest)))"
proof (intro conjI impI)
  show "\<not> has_doc lines 0" by (rule has_doc_0)
next
  assume d: "is_declaration l"
  then have "0 \<in> set (decl_indices (l # rest))" by (simp add: decl_indices_Cons)
  moreover have "\<not> has_doc (l # rest) 0" by (rule has_doc_0)
  ultimately have "length (filter (has_doc (l # rest)) (decl_indices (l # rest)))
      < length (decl_indices (l # rest))"
    by (rule length_filter_drop)
  then show "snd (analyze_lines (l # rest)) < fst (analyze_lines (l # rest))"
    by (simp add: analyze_lines_eq)
qed

theorem line_zero_never_documented_witness:
  "is_declaration ''func foo() {}''
   \<and> \<not> has_doc [''func foo() {}'', ''/// doc''] 0
   \<and> snd (analyze_lines [''func foo() {}'', ''/// doc''])
       < fst (analyze_lines [''func foo() {}'', ''/// doc''])"
proof -
  have d: "is_declaration ''func foo() {}''" by code_simp
  show ?thesis
    using d line_zero_never_documented [of "[''func foo() {}'', ''/// doc'']" "''func foo() {}''" "[''/// doc'']"]
    by simp
qed

text \<open>
  Claim C8. What a run reports for a file is a function of that file alone: whatever
  the state left by the files scanned before and whatever the directory, scanning a
  Swift file appends the line \<open>file_report f\<close> and adds the counts \<open>file_counts f\<close>. So
  two trees that hold the same Swift files in a different order give the same lines,
  each in its place, the same totals and the same summary: scanning A then B reports
  for A and for B what scanning B then A reports. The run itself is a function of the
  tree (the script reads no clock, no random source and no environment), so two runs on
  an unchanged tree write the same text.
\<close>

theorem scan_order_independent:
  "(is_swift f \<and> readable f \<and> plain_name f \<longrightarrow>
      process_file r f st =
        Inr (st\<lparr>total_funcs := total_funcs st + fst (file_counts f),
                total_documented := total_documented st + snd (file_counts f),
                stdout := stdout st @ file_report f\<rparr>))
   \<and> (mset (swift_files t2) = mset (swift_files t1)
      \<and> list_all readable (swift_files t1) \<and> list_all plain_name (swift_files t1)
    \<longrightarrow> (\<exists>s1 s2 overall.
          main t1 = Inr s1 \<and> main t2 = Inr s2
          \<and> stdout s1 = concat (map file_report (swift_files t1)) @ overall
          \<and> stdout s2 = concat (map file_report (swift_files t2)) @ overall
          \<and> total_funcs s1 = total_funcs s2 \<and> total_documented s1 = total_documented s2))"
proof (intro conjI impI)
  assume "is_swift f \<and> readable f \<and> plain_name f"
  then have "process_file r f st = Inr (after_files [f] st)"
    by (intro process_file_swift) simp_all
  then show "process_file r f st =
        Inr (st\<lparr>total_funcs := total_funcs st + fst (file_counts f),
                total_documented := total_documented st + snd (file_counts f),
                stdout := stdout st @ file_report f\<rparr>)"
    by (simp add: after_files_def)
next
  assume a: "mset (swift_files t2) = mset (swift_files t1)
      \<and> list_all readable (swift_files t1) \<and> list_all plain_name (swift_files t1)"
  then have m: "mset (swift_files t2) = mset (swift_files t1)"
    and r1: "list_all readable (swift_files t1)" and p1: "list_all plain_name (swift_files t1)"
    by simp_all
  from r1 have r2: "list_all readable (swift_files t2)"
    by (simp only: list_all_mset_cong [OF m])
  from p1 have p2: "list_all plain_name (swift_files t2)"
    by (simp only: list_all_mset_cong [OF m])
  have f: "sum_list (map (fst \<circ> file_counts) (swift_files t2))
      = sum_list (map (fst \<circ> file_counts) (swift_files t1))"
    using m by (rule sum_list_mset_cong)
  have d: "sum_list (map (snd \<circ> file_counts) (swift_files t2))
      = sum_list (map (snd \<circ> file_counts) (swift_files t1))"
    using m by (rule sum_list_mset_cong)
  let ?T = "sum_list (map (fst \<circ> file_counts) (swift_files t1))"
  let ?D = "sum_list (map (snd \<circ> file_counts) (swift_files t1))"
  let ?s1 = "\<lparr>total_funcs = ?T, total_documented = ?D,
      stdout = concat (map file_report (swift_files t1)) @ overall_report ?D ?T\<rparr>"
  let ?s2 = "\<lparr>total_funcs = ?T, total_documented = ?D,
      stdout = concat (map file_report (swift_files t2)) @ overall_report ?D ?T\<rparr>"
  have m1: "main t1 = Inr ?s1" using r1 p1 by (rule main_after)
  have m2: "main t2 = Inr ?s2" using main_after [OF r2 p2] by (simp only: f d)
  have "main t1 = Inr ?s1 \<and> main t2 = Inr ?s2
          \<and> stdout ?s1 = concat (map file_report (swift_files t1)) @ overall_report ?D ?T
          \<and> stdout ?s2 = concat (map file_report (swift_files t2)) @ overall_report ?D ?T
          \<and> total_funcs ?s1 = total_funcs ?s2 \<and> total_documented ?s1 = total_documented ?s2"
    using m1 m2 by simp
  then show "\<exists>s1 s2 overall.
          main t1 = Inr s1 \<and> main t2 = Inr s2
          \<and> stdout s1 = concat (map file_report (swift_files t1)) @ overall
          \<and> stdout s2 = concat (map file_report (swift_files t2)) @ overall
          \<and> total_funcs s1 = total_funcs s2 \<and> total_documented s1 = total_documented s2"
    by (intro exI)
qed

theorem scan_order_independent_witness:
  "process_file ''/src/net'' (''A.swift'', Some ''/// d\<newline>func f()'')
      \<lparr>total_funcs = 7, total_documented = 3, stdout = ''Z.swift: 3/7 (42.9%)\<newline>''\<rparr>
     = Inr \<lparr>total_funcs = 8, total_documented = 4,
            stdout = ''Z.swift: 3/7 (42.9%)\<newline>A.swift: 1/1 (100.0%)\<newline>''\<rparr>
   \<and> mset (swift_files [File ''B.swift'' (Some ''func g()''), File ''A.swift'' (Some ''/// d\<newline>func f()'')])
     = mset (swift_files [File ''A.swift'' (Some ''/// d\<newline>func f()''), File ''B.swift'' (Some ''func g()'')])
   \<and> list_all readable (swift_files [File ''A.swift'' (Some ''/// d\<newline>func f()''), File ''B.swift'' (Some ''func g()'')])
   \<and> list_all plain_name (swift_files [File ''A.swift'' (Some ''/// d\<newline>func f()''), File ''B.swift'' (Some ''func g()'')])
   \<and> (\<exists>s1 s2 overall.
          main [File ''A.swift'' (Some ''/// d\<newline>func f()''), File ''B.swift'' (Some ''func g()'')] = Inr s1
          \<and> main [File ''B.swift'' (Some ''func g()''), File ''A.swift'' (Some ''/// d\<newline>func f()'')] = Inr s2
          \<and> stdout s1 = ''A.swift: 1/1 (100.0%)\<newline>B.swift: 0/1 (0.0%)\<newline>'' @ overall
          \<and> stdout s2 = ''B.swift: 0/1 (0.0%)\<newline>A.swift: 1/1 (100.0%)\<newline>'' @ overall
          \<and> total_funcs s1 = total_funcs s2 \<and> total_documented s1 = total_documented s2)"
  (is "process_file ?r ?f ?st = Inr ?st' \<and> mset (swift_files ?t2) = mset (swift_files ?t1) \<and> ?r1 \<and> ?p1 \<and> ?c")
proof -
  have h: "is_swift ?f \<and> readable ?f \<and> plain_name ?f" by code_simp
  have e: "?st\<lparr>total_funcs := total_funcs ?st + fst (file_counts ?f),
                total_documented := total_documented ?st + snd (file_counts ?f),
                stdout := stdout ?st @ file_report ?f\<rparr> = ?st'"
    by code_simp
  from scan_order_independent [of ?f ?r ?st, THEN conjunct1] h
  have "process_file ?r ?f ?st =
        Inr (?st\<lparr>total_funcs := total_funcs ?st + fst (file_counts ?f),
                total_documented := total_documented ?st + snd (file_counts ?f),
                stdout := stdout ?st @ file_report ?f\<rparr>)"
    by (rule mp)
  then have step: "process_file ?r ?f ?st = Inr ?st'" by (simp only: e)
  have s1: "swift_files ?t1 = [(''A.swift'', Some ''/// d\<newline>func f()''), (''B.swift'', Some ''func g()'')]"
    by code_simp
  have s2: "swift_files ?t2 = [(''B.swift'', Some ''func g()''), (''A.swift'', Some ''/// d\<newline>func f()'')]"
    by code_simp
  have m: "mset (swift_files ?t2) = mset (swift_files ?t1)" by (simp add: s1 s2)
  have r: ?r1 by code_simp
  have p: ?p1 by code_simp
  have l1: "concat (map file_report (swift_files ?t1))
      = ''A.swift: 1/1 (100.0%)\<newline>B.swift: 0/1 (0.0%)\<newline>''" by code_simp
  have l2: "concat (map file_report (swift_files ?t2))
      = ''B.swift: 0/1 (0.0%)\<newline>A.swift: 1/1 (100.0%)\<newline>''" by code_simp
  from m r p have "mset (swift_files ?t2) = mset (swift_files ?t1) \<and> ?r1 \<and> ?p1" by (intro conjI)
  with scan_order_independent [of _ _ _ ?t2 ?t1, THEN conjunct2] have
    "\<exists>s1 s2 overall.
          main ?t1 = Inr s1 \<and> main ?t2 = Inr s2
          \<and> stdout s1 = concat (map file_report (swift_files ?t1)) @ overall
          \<and> stdout s2 = concat (map file_report (swift_files ?t2)) @ overall
          \<and> total_funcs s1 = total_funcs s2 \<and> total_documented s1 = total_documented s2"
    by (rule mp)
  then have ?c by (simp only: l1 l2)
  with step m r p show ?thesis by (intro conjI)
qed

text \<open>
  Claim C9. A line made of whitespace, an optional visibility keyword with its
  whitespace, an optional \<^verbatim>\<open>static\<close> with its whitespace, then \<^verbatim>\<open>init\<close>, any amount of
  whitespace and an opening parenthesis, whatever follows, is counted as a declaration
  by the analyzer: it passes the test of line 10, the first loop puts its index into
  \<^verbatim>\<open>func_lines\<close> wherever the line stands in a file, and it adds exactly one to the
  total. The file that holds only the line \<^verbatim>\<open>init (\<close> has one declaration.
\<close>

theorem init_with_spaces_is_counted:
  assumes "spaces ws" and "vis = [] \<or> visibility_form vis"
    and "st = [] \<or> keyword_ws ''static'' st" and "spaces sp"
    and "line = ws @ vis @ st @ ''init'' @ sp @ ''('' @ rest"
  shows "is_declaration line
    \<and> length pre \<in> set (find_func_lines 0 (pre @ line # post) [])
    \<and> fst (analyze_lines (pre @ line # post))
        = fst (analyze_lines pre) + 1 + fst (analyze_lines post)
    \<and> analyze_file (Some ''init ('') = Inr (1, 0)"
proof -
  have d: "is_declaration line"
    unfolding assms(5) using assms(1-4) by (rule init_line_is_declaration)
  have e: "analyze_file (Some ''init ('') = Inr (1, 0)" by code_simp
  from declaration_line_counted [OF d, of pre post] d e show ?thesis by (intro conjI)
qed

theorem init_with_spaces_is_counted_witness:
  "spaces [] \<and> spaces '' ''
   \<and> is_declaration ''init (''
   \<and> 1 \<in> set (find_func_lines 0 [''import Foundation'', ''init ('', ''}''] [])
   \<and> fst (analyze_lines [''import Foundation'', ''init ('', ''}'']) = 1"
proof -
  have s: "spaces []" "spaces '' ''" by (simp_all add: spaces_def is_space_def)
  have l: "''init ('' = [] @ [] @ [] @ ''init'' @ '' '' @ ''('' @ []" by simp
  have v: "([]::string) = [] \<or> visibility_form []" "([]::string) = [] \<or> keyword_ws ''static'' []"
    by simp_all
  note t = init_with_spaces_is_counted
    [OF s(1) v s(2) l, of "[''import Foundation'']" "[''}'']"]
  have p: "fst (analyze_lines [''import Foundation'']) = 0" by code_simp
  have q: "fst (analyze_lines [''}'']) = 0" by code_simp
  from t have a: "is_declaration ''init (''" by (rule conjunct1)
  from t have "length [''import Foundation''] \<in> set (find_func_lines 0 ([''import Foundation''] @ ''init ('' # [''}'']) [])"
    by (elim conjE)
  then have b: "1 \<in> set (find_func_lines 0 [''import Foundation'', ''init ('', ''}''] [])"
    by (simp only: append.simps list.size One_nat_def add_0 plus_nat.simps)
  from t have "fst (analyze_lines ([''import Foundation''] @ ''init ('' # [''}'']))
        = fst (analyze_lines [''import Foundation'']) + 1 + fst (analyze_lines [''}''])"
    by (elim conjE)
  then have c: "fst (analyze_lines [''import Foundation'', ''init ('', ''}'']) = 1"
    by (simp only: append.simps p q)
  from s a b c show ?thesis by (intro conjI)
qed

text \<open>
  Claim C10. Appending lines \<open>S\<close> to the lines \<open>L\<close> of a file leaves every line of \<open>L\<close>
  classified as before and documented as before, so neither count decreases.
\<close>

theorem appending_lines_keeps_declarations:
  "fst (analyze_lines L) \<le> fst (analyze_lines (L @ S))
   \<and> snd (analyze_lines L) \<le> snd (analyze_lines (L @ S))
   \<and> (\<forall>i < length L. is_declaration ((L @ S) ! i) = is_declaration (L ! i)
                      \<and> has_doc (L @ S) i = has_doc L i)"
proof (intro conjI allI impI)
  show "fst (analyze_lines L) \<le> fst (analyze_lines (L @ S))"
    by (simp add: analyze_lines_eq decl_indices_append)
  show "snd (analyze_lines L) \<le> snd (analyze_lines (L @ S))"
    by (simp add: analyze_lines_eq decl_indices_append documented_append)
next
  fix i assume "i < length L"
  then show "is_declaration ((L @ S) ! i) = is_declaration (L ! i)"
    by (simp add: nth_append)
next
  fix i assume "i < length L"
  then show "has_doc (L @ S) i = has_doc L i"
    by (simp add: has_doc_append)
qed

theorem appending_lines_keeps_declarations_witness:
  "analyze_lines [''/// doc'', ''func f()''] = (1, 1)
   \<and> analyze_lines ([''/// doc'', ''func f()''] @ [''func g()'']) = (2, 2)
   \<and> is_declaration (([''/// doc'', ''func f()''] @ [''func g()'']) ! 1)
   \<and> has_doc ([''/// doc'', ''func f()''] @ [''func g()'']) 1"
proof -
  have a: "analyze_lines [''/// doc'', ''func f()''] = (1, 1)" by code_simp
  have b: "analyze_lines ([''/// doc'', ''func f()''] @ [''func g()'']) = (2, 2)" by code_simp
  have d: "is_declaration ([''/// doc'', ''func f()''] ! 1)" by code_simp
  have h: "has_doc [''/// doc'', ''func f()''] 1" by code_simp
  have l: "1 < length [''/// doc'', ''func f()'']" by simp
  from appending_lines_keeps_declarations [of "[''/// doc'', ''func f()'']" "[''func g()'']"] l d h
  have "is_declaration (([''/// doc'', ''func f()''] @ [''func g()'']) ! 1)
      \<and> has_doc ([''/// doc'', ''func f()''] @ [''func g()'']) 1"
    by blast
  with a b show ?thesis by blast
qed

end
